theory Spec2Isabelle
  imports Main
begin

section \<open>Text and run-time failures\<close>

text \<open>
  A Go string is a sequence of bytes, here a \<open>string\<close> (a list of \<open>char\<close>).  Every
  pattern of the program consists of ASCII characters only, and an ASCII byte is never
  part of a longer UTF-8 sequence, so matching byte by byte is what the regular
  expression engine does.  The helpers of package \<open>strings\<close> are modelled for ASCII
  text: white space is the six ASCII white-space characters, and only the letters
  \<open>A\<close> to \<open>Z\<close> have a lower case; a byte above 127 is an ordinary character.
\<close>

datatype panic = IndexOutOfRange | SliceBoundsOutOfRange

definition ESC :: char where "ESC = CHR 0x1B"
definition NL :: char where "NL = CHR 0x0A"
definition TAB :: char where "TAB = CHR 0x09"
definition VT :: char where "VT = CHR 0x0B"
definition FF :: char where "FF = CHR 0x0C"
definition CR :: char where "CR = CHR 0x0D"
definition BSL :: char where "BSL = CHR 0x5C"

definition isUpper :: "char \<Rightarrow> bool" where
  "isUpper c = (c \<in> set ''ABCDEFGHIJKLMNOPQRSTUVWXYZ'')"

definition isDigitChar :: "char \<Rightarrow> bool" where
  "isDigitChar c = (c \<in> set ''0123456789'')"

definition digitVal :: "char \<Rightarrow> nat" where
  "digitVal c = (case map_of (zip ''0123456789'' [0, 1, 2, 3, 4, 5, 6, 7, 8, 9]) c of
     Some n \<Rightarrow> n | None \<Rightarrow> 0)"

definition digitChar :: "nat \<Rightarrow> char" where
  "digitChar n = ''0123456789'' ! (n mod 10)"

definition isSpace :: "char \<Rightarrow> bool" where
  "isSpace c = (c \<in> {CHR '' '', TAB, NL, VT, FF, CR})"

text \<open>\<open>s[i]\<close> and \<open>s[lo:hi]\<close> panic outside the bounds.\<close>

definition index :: "'a list \<Rightarrow> int \<Rightarrow> panic + 'a" where
  "index xs i = (if 0 \<le> i \<and> i < int (length xs) then Inr (xs ! nat i) else Inl IndexOutOfRange)"

definition slice :: "'a list \<Rightarrow> int \<Rightarrow> int \<Rightarrow> panic + 'a list" where
  "slice xs lo hi =
     (if 0 \<le> lo \<and> lo \<le> hi \<and> hi \<le> int (length xs)
      then Inr (take (nat (hi - lo)) (drop (nat lo) xs))
      else Inl SliceBoundsOutOfRange)"

section \<open>Regular expressions\<close>

text \<open>
  A compiled pattern is represented by its anchored matcher: applied to the text that
  starts at some position, it returns the submatches of the leftmost-first match that
  begins there (the whole match first, then the capture groups), or \<open>None\<close>.
\<close>

type_synonym regexp = "string \<Rightarrow> string list option"

text \<open>
  The scan shared by \<open>ReplaceAllString\<close> and \<open>ReplaceAllStringFunc\<close>: left to right,
  the successive non-overlapping matches (\<open>Inl\<close>) and the characters between them
  (\<open>Inr\<close>).  No pattern of the program matches the empty string; an empty match is
  passed over.
\<close>

function scan :: "regexp \<Rightarrow> string \<Rightarrow> (string + char) list" where
  "scan re [] = []"
| "scan re (c # cs) =
     (case re (c # cs) of
        Some (m # gs) \<Rightarrow>
          (if m = [] then Inr c # scan re cs
           else Inl m # scan re (drop (length m) (c # cs)))
      | _ \<Rightarrow> Inr c # scan re cs)"
  by pat_completeness auto
termination
  by (relation "measure (\<lambda>(re, s). length s)") auto

fun concatResults :: "(panic + string) list \<Rightarrow> panic + string" where
  "concatResults [] = Inr []"
| "concatResults (Inl p # rs) = Inl p"
| "concatResults (Inr x # rs) =
     (case concatResults rs of Inl p \<Rightarrow> Inl p | Inr out \<Rightarrow> Inr (x @ out))"

definition replaceAllStringFunc :: "regexp \<Rightarrow> string \<Rightarrow> (string \<Rightarrow> panic + string) \<Rightarrow> panic + string" where
  "replaceAllStringFunc re src repl =
     concatResults (map (\<lambda>seg. case seg of Inl m \<Rightarrow> repl m | Inr c \<Rightarrow> Inr [c]) (scan re src))"

text \<open>The replacement texts of the program contain no \<open>$\<close>, so they are inserted as they are.\<close>

definition replaceAllString :: "regexp \<Rightarrow> string \<Rightarrow> string \<Rightarrow> string" where
  "replaceAllString re src repl =
     concat (map (\<lambda>seg. case seg of Inl m \<Rightarrow> repl | Inr c \<Rightarrow> [c]) (scan re src))"

text \<open>\<open>FindStringSubmatch\<close>: the submatches of the leftmost match, \<open>[]\<close> (nil) when there is none.\<close>

fun findStringSubmatch :: "regexp \<Rightarrow> string \<Rightarrow> string list" where
  "findStringSubmatch re [] = (case re [] of Some g \<Rightarrow> g | None \<Rightarrow> [])"
| "findStringSubmatch re (c # cs) =
     (case re (c # cs) of Some g \<Rightarrow> g | None \<Rightarrow> findStringSubmatch re cs)"

text \<open>
  \<^verbatim>\<open>(\*?)#([A-Z]{3})\<close>: the star is taken when it is there (if the rest then fails, the
  match without it would have to start with \<open>#\<close>, which the star is not).
\<close>

definition optStar :: "string \<Rightarrow> string" where
  "optStar s = (if take 1 s = ''*'' then ''*'' else [])"

definition iataRegex :: regexp where
  "iataRegex s =
     (let star = optStar s; r = drop (length star) s; code = take 3 (drop 1 r) in
      if take 1 r = ''#'' \<and> length code = 3 \<and> list_all isUpper code
      then Some [star @ ''#'' @ code, star, code] else None)"

text \<open>\<^verbatim>\<open>(\*?)##([A-Z]{4})\<close>\<close>

definition icaoRegex :: regexp where
  "icaoRegex s =
     (let star = optStar s; r = drop (length star) s; code = take 4 (drop 2 r) in
      if take 2 r = ''##'' \<and> length code = 4 \<and> list_all isUpper code
      then Some [star @ ''##'' @ code, star, code] else None)"

text \<open>
  \<^verbatim>\<open>D\(([0-9T:.Z+-]{16,})\)\<close> and its siblings with \<open>T12\<close> and \<open>T24\<close>: after the opening
  literal, the longest run of characters of the class, at least 16 of them, then the
  closing parenthesis.  The parenthesis is not in the class, so no shorter run can be
  followed by it.
\<close>

definition tsClass :: "char \<Rightarrow> bool" where
  "tsClass c = (c \<in> set ''0123456789T:.Z+-'')"

definition tokenRegex :: "string \<Rightarrow> regexp" where
  "tokenRegex lit s =
     (let r = drop (length lit) s; inner = takeWhile tsClass r in
      if take (length lit) s = lit \<and> 16 \<le> length inner \<and> take 1 (dropWhile tsClass r) = '')''
      then Some [lit @ inner @ '')'', inner] else None)"

definition dateRegex :: regexp where "dateRegex = tokenRegex ''D(''"
definition time12Regex :: regexp where "time12Regex = tokenRegex ''T12(''"
definition time24Regex :: regexp where "time24Regex = tokenRegex ''T24(''"

section \<open>The airport directory\<close>

record Airport =
  Name :: string
  ISOCountry :: string
  Municipality :: string
  ICAOCode :: string
  IATACode :: string
  Coordinates :: string

text \<open>
  A \<open>*Airport\<close>: the address of the record and the record it points to.  The program
  never writes to an \<open>Airport\<close> once it is built, so the target of an address never
  changes; two pointers are the same instance when their addresses are equal.
\<close>

datatype airportPtr = Ptr (addr: nat) (target: Airport)

text \<open>The global \<open>airportMap\<close>; reading a key that is absent (or a nil map) yields \<open>None\<close>.\<close>

type_synonym airportMap = "string \<rightharpoonup> airportPtr"

section \<open>ANSI escape codes\<close>

definition ColorReset :: string where "ColorReset = ESC # ''[0m''"
definition ColorRed :: string where "ColorRed = ESC # ''[31m''"
definition ColorGreen :: string where "ColorGreen = ESC # ''[32m''"
definition ColorYellow :: string where "ColorYellow = ESC # ''[33m''"
definition ColorBlue :: string where "ColorBlue = ESC # ''[34m''"
definition ColorMagenta :: string where "ColorMagenta = ESC # ''[35m''"
definition ColorCyan :: string where "ColorCyan = ESC # ''[36m''"
definition Bold :: string where "Bold = ESC # ''[1m''"
definition Italic :: string where "Italic = ESC # ''[3m''"
definition Underline :: string where "Underline = ESC # ''[4m''"

section \<open>Airport codes\<close>

definition trimSpace :: "string \<Rightarrow> string" where
  "trimSpace s = rev (dropWhile isSpace (rev (dropWhile isSpace s)))"

definition plainAirport :: "airportPtr \<Rightarrow> string" where
  "plainAirport airport = Name (target airport)"

definition plainCity :: "airportPtr \<Rightarrow> string" where
  "plainCity airport =
     (if trimSpace (Municipality (target airport)) \<noteq> [] then Municipality (target airport)
      else plainAirport airport)"

definition highlightAirport :: "airportPtr \<Rightarrow> string" where
  "highlightAirport airport = ColorGreen @ Name (target airport) @ ColorReset"

definition highlightCity :: "airportPtr \<Rightarrow> string" where
  "highlightCity airport =
     (if trimSpace (Municipality (target airport)) \<noteq> []
      then ColorCyan @ Municipality (target airport) @ ColorReset
      else ColorGreen @ Name (target airport) @ ColorReset)"

text \<open>
  The function literal handed to \<open>ReplaceAllStringFunc\<close> in the four airport-code
  passes; they differ in the pattern and in the two renderers.
\<close>

definition codeRepl ::
  "regexp \<Rightarrow> (airportPtr \<Rightarrow> string) \<Rightarrow> (airportPtr \<Rightarrow> string) \<Rightarrow> airportMap \<Rightarrow> string \<Rightarrow> panic + string" where
  "codeRepl re city airport m match =
     (let groups = findStringSubmatch re match in
      case index groups 2 of
        Inl p \<Rightarrow> Inl p
      | Inr code \<Rightarrow>
          (case m code of
             Some a \<Rightarrow>
               (case index groups 1 of
                  Inl p \<Rightarrow> Inl p
                | Inr g1 \<Rightarrow> if g1 = ''*'' then Inr (city a) else Inr (airport a))
           | None \<Rightarrow> Inr match))"

definition plainIataPass :: "airportMap \<Rightarrow> string \<Rightarrow> panic + string" where
  "plainIataPass m content =
     replaceAllStringFunc iataRegex content (codeRepl iataRegex plainCity plainAirport m)"

definition plainIcaoPass :: "airportMap \<Rightarrow> string \<Rightarrow> panic + string" where
  "plainIcaoPass m content =
     replaceAllStringFunc icaoRegex content (codeRepl icaoRegex plainCity plainAirport m)"

definition plainProcessAirportCodes :: "airportMap \<Rightarrow> string \<Rightarrow> panic + string" where
  "plainProcessAirportCodes m content =
     (case plainIataPass m content of Inl p \<Rightarrow> Inl p | Inr content1 \<Rightarrow> plainIcaoPass m content1)"

definition highlightIataPass :: "airportMap \<Rightarrow> string \<Rightarrow> panic + string" where
  "highlightIataPass m content =
     replaceAllStringFunc iataRegex content (codeRepl iataRegex highlightCity highlightAirport m)"

definition highlightIcaoPass :: "airportMap \<Rightarrow> string \<Rightarrow> panic + string" where
  "highlightIcaoPass m content =
     replaceAllStringFunc icaoRegex content (codeRepl icaoRegex highlightCity highlightAirport m)"

definition processAirportCodes :: "airportMap \<Rightarrow> string \<Rightarrow> panic + string" where
  "processAirportCodes m content =
     (case highlightIataPass m content of Inl p \<Rightarrow> Inl p | Inr content1 \<Rightarrow> highlightIcaoPass m content1)"

section \<open>Time stamps\<close>

text \<open>
  What \<open>time.Parse\<close> yields for the two layouts of the program and what \<open>Format\<close> reads
  back: the calendar date and clock time as written, and the offset of the zone in
  seconds east of UTC.  \<open>Parse\<close> builds the instant from these fields and attaches a zone
  with this offset, and \<open>Format\<close> renders an instant in its own zone, so the fields it
  prints are the fields parsed.
\<close>

record goTime =
  year :: nat
  month :: nat
  day :: nat
  hour :: nat
  minute :: nat
  zoneOffset :: int

definition isDigit :: "string \<Rightarrow> nat \<Rightarrow> bool" where
  "isDigit s i = (i < length s \<and> isDigitChar (s ! i))"

text \<open>\<open>getnum\<close>: one or two digits; two are required when \<open>fixed\<close>.\<close>

definition getnum :: "string \<Rightarrow> bool \<Rightarrow> (nat \<times> string) option" where
  "getnum s fixed =
     (if \<not> isDigit s 0 then None
      else if \<not> isDigit s 1 then (if fixed then None else Some (digitVal (s ! 0), drop 1 s))
      else Some (digitVal (s ! 0) * 10 + digitVal (s ! 1), drop 2 s))"

text \<open>\<open>atoi\<close> on a text that starts with a digit (the caller checks it): digits only.\<close>

definition atoi :: "string \<Rightarrow> nat option" where
  "atoi s = (if list_all isDigitChar s then Some (foldl (\<lambda>x c. x * 10 + digitVal c) 0 s) else None)"

text \<open>\<open>skip\<close> for a one-character literal of the layout.\<close>

definition skip :: "string \<Rightarrow> char \<Rightarrow> string option" where
  "skip v c = (case v of [] \<Rightarrow> None | x # xs \<Rightarrow> if x = c then Some xs else None)"

definition isLeap :: "nat \<Rightarrow> bool" where
  "isLeap y = (y mod 4 = 0 \<and> (y mod 100 \<noteq> 0 \<or> y mod 400 = 0))"

definition daysIn :: "nat \<Rightarrow> nat \<Rightarrow> nat" where
  "daysIn m y =
     (if m = 2 \<and> isLeap y then 29
      else [31, 28, 31, 30, 31, 30, 31, 31, 30, 31, 30, 31] ! (m - 1))"

text \<open>
  The elements \<open>2006-01-02T15:04\<close> that both layouts start with: a four-digit year, a
  two-digit month (1 to 12), a two-digit day, an hour of one or two digits (below 24)
  and a two-digit minute (below 60).  The result carries the text that is left.
\<close>

definition parseDateTime :: "string \<Rightarrow> (goTime \<times> string) option" where
  "parseDateTime v =
     (if length v < 4 \<or> \<not> isDigit v 0 then None else
      case atoi (take 4 v) of None \<Rightarrow> None | Some y \<Rightarrow>
      case skip (drop 4 v) (CHR ''-'') of None \<Rightarrow> None | Some v1 \<Rightarrow>
      case getnum v1 True of None \<Rightarrow> None | Some (mo, v2) \<Rightarrow>
      if mo \<le> 0 \<or> 12 < mo then None else
      case skip v2 (CHR ''-'') of None \<Rightarrow> None | Some v3 \<Rightarrow>
      case getnum v3 True of None \<Rightarrow> None | Some (d, v4) \<Rightarrow>
      case skip v4 (CHR ''T'') of None \<Rightarrow> None | Some v5 \<Rightarrow>
      case getnum v5 False of None \<Rightarrow> None | Some (h, v6) \<Rightarrow>
      if 24 \<le> h then None else
      case skip v6 (CHR '':'') of None \<Rightarrow> None | Some v7 \<Rightarrow>
      case getnum v7 True of None \<Rightarrow> None | Some (mi, v8) \<Rightarrow>
      if 60 \<le> mi then None else
      Some (\<lparr>year = y, month = mo, day = d, hour = h, minute = mi, zoneOffset = 0\<rparr>, v8))"

text \<open>The day of the month is validated once the whole value is read.\<close>

definition validDay :: "goTime \<Rightarrow> goTime option" where
  "validDay t = (if day t < 1 \<or> daysIn (month t) (year t) < day t then None else Some t)"

text \<open>Layout \<open>2006-01-02T15:04Z\<close>: the \<open>Z\<close> is a literal; the time is in UTC.\<close>

definition parseLayoutZ :: "string \<Rightarrow> goTime option" where
  "parseLayoutZ v =
     (case parseDateTime v of None \<Rightarrow> None | Some (t, v1) \<Rightarrow>
      case skip v1 (CHR ''Z'') of None \<Rightarrow> None | Some v2 \<Rightarrow>
      if v2 \<noteq> [] then None else validDay t)"

text \<open>
  Layout \<open>2006-01-02T15:04-07:00\<close>: a sign, two digits, a colon, two digits; hours up to
  24 and minutes up to 60 are let through.
\<close>

definition parseLayoutOffset :: "string \<Rightarrow> goTime option" where
  "parseLayoutOffset v =
     (case parseDateTime v of None \<Rightarrow> None | Some (t, v1) \<Rightarrow>
      if length v1 < 6 then None else
      if v1 ! 3 \<noteq> CHR '':'' then None else
      case getnum (take 2 (drop 1 v1)) True of None \<Rightarrow> None | Some (hr, _) \<Rightarrow>
      case getnum (take 2 (drop 4 v1)) True of None \<Rightarrow> None | Some (mm, _) \<Rightarrow>
      if 24 < hr \<or> 60 < mm then None else
      let secs = int ((hr * 60 + mm) * 60) in
      case (if v1 ! 0 = CHR ''+'' then Some secs else if v1 ! 0 = CHR ''-'' then Some (- secs) else None) of
        None \<Rightarrow> None
      | Some off \<Rightarrow> if drop 6 v1 \<noteq> [] then None else validDay (t\<lparr>zoneOffset := off\<rparr>))"

text \<open>The two attempts of every date and time pass.\<close>

definition parseTimestamp :: "string \<Rightarrow> goTime option" where
  "parseTimestamp v = (case parseLayoutZ v of Some t \<Rightarrow> Some t | None \<Rightarrow> parseLayoutOffset v)"

definition pad2 :: "nat \<Rightarrow> string" where
  "pad2 n = [digitChar (n div 10), digitChar n]"

definition pad4 :: "nat \<Rightarrow> string" where
  "pad4 n = [digitChar (n div 1000), digitChar (n div 100), digitChar (n div 10), digitChar n]"

definition monthAbbr :: "nat \<Rightarrow> string" where
  "monthAbbr m = [''Jan'', ''Feb'', ''Mar'', ''Apr'', ''May'', ''Jun'',
                  ''Jul'', ''Aug'', ''Sep'', ''Oct'', ''Nov'', ''Dec''] ! (m - 1)"

text \<open>\<open>Format("02 Jan 2006")\<close>, \<open>Format("03:04PM")\<close> and \<open>Format("15:04")\<close>.\<close>

definition formatDate :: "goTime \<Rightarrow> string" where
  "formatDate t = pad2 (day t) @ '' '' @ monthAbbr (month t) @ '' '' @ pad4 (year t)"

definition formatKitchen :: "goTime \<Rightarrow> string" where
  "formatKitchen t =
     pad2 (if hour t mod 12 = 0 then 12 else hour t mod 12) @ '':'' @ pad2 (minute t) @
     (if 12 \<le> hour t then ''PM'' else ''AM'')"

definition formatClock :: "goTime \<Rightarrow> string" where
  "formatClock t = pad2 (hour t) @ '':'' @ pad2 (minute t)"

text \<open>
  \<open>Format("-07:00")\<close>: the offset in minutes (the quotient truncates towards zero), its
  sign, then hours and minutes.  It never prints \<open>Z\<close>.
\<close>

definition formatZone :: "goTime \<Rightarrow> string" where
  "formatZone t =
     (let zone = sgn (zoneOffset t) * (\<bar>zoneOffset t\<bar> div 60) in
      (if zone < 0 then ''-'' else ''+'') @ pad2 (nat \<bar>zone\<bar> div 60) @ '':'' @ pad2 (nat \<bar>zone\<bar> mod 60))"

definition zoneText :: "goTime \<Rightarrow> string" where
  "zoneText t = (let zone = formatZone t in if zone = ''Z'' then ''(+00:00)'' else ''('' @ zone @ '')'')"

section \<open>Dates and times\<close>

text \<open>
  The function literal of the six date and time passes: \<open>n\<close> is where the inner text
  starts in the match (2 after \<open>D(\<close>, 4 after \<open>T12(\<close> and \<open>T24(\<close>), \<open>render\<close> what is
  returned for a time that parsed.
\<close>

definition stampRepl :: "int \<Rightarrow> (goTime \<Rightarrow> string) \<Rightarrow> string \<Rightarrow> panic + string" where
  "stampRepl n render match =
     (case slice match n (int (length match) - 1) of
        Inl p \<Rightarrow> Inl p
      | Inr str \<Rightarrow> (case parseTimestamp str of None \<Rightarrow> Inr match | Some t \<Rightarrow> Inr (render t)))"

definition plainDate :: "goTime \<Rightarrow> string" where
  "plainDate t = formatDate t"

definition plainTime12 :: "goTime \<Rightarrow> string" where
  "plainTime12 t = formatKitchen t @ '' '' @ zoneText t"

definition plainTime24 :: "goTime \<Rightarrow> string" where
  "plainTime24 t = formatClock t @ '' '' @ zoneText t"

definition highlightDate :: "goTime \<Rightarrow> string" where
  "highlightDate t = ColorMagenta @ formatDate t @ ColorReset"

definition highlightTime12 :: "goTime \<Rightarrow> string" where
  "highlightTime12 t =
     ColorCyan @ formatKitchen t @ ColorReset @ '' '' @ ColorYellow @ zoneText t @ ColorReset"

definition highlightTime24 :: "goTime \<Rightarrow> string" where
  "highlightTime24 t =
     ColorCyan @ formatClock t @ ColorReset @ '' '' @ ColorYellow @ zoneText t @ ColorReset"

definition plainDatePass :: "string \<Rightarrow> panic + string" where
  "plainDatePass content = replaceAllStringFunc dateRegex content (stampRepl 2 plainDate)"

definition plainTime12Pass :: "string \<Rightarrow> panic + string" where
  "plainTime12Pass content = replaceAllStringFunc time12Regex content (stampRepl 4 plainTime12)"

definition plainTime24Pass :: "string \<Rightarrow> panic + string" where
  "plainTime24Pass content = replaceAllStringFunc time24Regex content (stampRepl 4 plainTime24)"

definition plainProcessDatesAndTimes :: "string \<Rightarrow> panic + string" where
  "plainProcessDatesAndTimes content =
     (case plainDatePass content of Inl p \<Rightarrow> Inl p | Inr content1 \<Rightarrow>
      case plainTime12Pass content1 of Inl p \<Rightarrow> Inl p | Inr content2 \<Rightarrow>
      plainTime24Pass content2)"

definition highlightDatePass :: "string \<Rightarrow> panic + string" where
  "highlightDatePass content = replaceAllStringFunc dateRegex content (stampRepl 2 highlightDate)"

definition highlightTime12Pass :: "string \<Rightarrow> panic + string" where
  "highlightTime12Pass content = replaceAllStringFunc time12Regex content (stampRepl 4 highlightTime12)"

definition highlightTime24Pass :: "string \<Rightarrow> panic + string" where
  "highlightTime24Pass content = replaceAllStringFunc time24Regex content (stampRepl 4 highlightTime24)"

definition processDatesAndTimes :: "string \<Rightarrow> panic + string" where
  "processDatesAndTimes content =
     (case highlightDatePass content of Inl p \<Rightarrow> Inl p | Inr content1 \<Rightarrow>
      case highlightTime12Pass content1 of Inl p \<Rightarrow> Inl p | Inr content2 \<Rightarrow>
      highlightTime24Pass content2)"

section \<open>White space\<close>

text \<open>\<open>strings.Split(content, "\n")\<close>: the pieces between the newlines, one more than there are newlines.\<close>

fun split :: "string \<Rightarrow> string list" where
  "split [] = [[]]"
| "split (c # cs) =
     (if c = NL then [] # split cs
      else (case split cs of l # ls \<Rightarrow> (c # l) # ls | [] \<Rightarrow> [[c]]))"

text \<open>\<open>strings.Fields\<close>: the maximal runs of characters that are not white space.\<close>

function Fields :: "string \<Rightarrow> string list" where
  "Fields s =
     (let r = dropWhile isSpace s in
      if r = [] then []
      else takeWhile (\<lambda>c. \<not> isSpace c) r # Fields (dropWhile (\<lambda>c. \<not> isSpace c) r))"
  by pat_completeness auto
termination
proof (relation "measure length")
  show "wf (measure length)" by simp
next
  fix s r :: string
  assume r: "r = dropWhile isSpace s" and ne: "r \<noteq> []"
  from ne obtain x xs where xs: "r = x # xs" by (cases r) auto
  with r have "\<not> isSpace x" by (metis hd_dropWhile list.sel(1) ne)
  then have "length (dropWhile (\<lambda>c. \<not> isSpace c) r) \<le> length xs"
    using xs by (simp add: length_dropWhile_le)
  moreover have "length r \<le> length s" using r by (simp add: length_dropWhile_le)
  ultimately show "(dropWhile (\<lambda>c. \<not> isSpace c) r, s) \<in> measure length"
    using xs by simp
qed

fun join :: "string list \<Rightarrow> string \<Rightarrow> string" where
  "join [] sep = []"
| "join [x] sep = x"
| "join (x # y # ys) sep = x @ sep @ join (y # ys) sep"

definition trimHorizontalWhitespace :: "string \<Rightarrow> string" where
  "trimHorizontalWhitespace content =
     join (map (\<lambda>line. join (Fields line) '' '') (split content)) [NL]"

text \<open>\<^verbatim>\<open>\\[rvf]\<close>: a backslash and one of the letters \<open>r\<close>, \<open>v\<close>, \<open>f\<close>.\<close>

definition escapeRegex :: regexp where
  "escapeRegex s =
     (if take 1 s = [BSL] \<and> take 1 (drop 1 s) \<in> {''r'', ''v'', ''f''} then Some [take 2 s] else None)"

text \<open>\<^verbatim>\<open>[\r\v\f]+\<close>: the longest run of carriage returns, vertical tabs and form feeds.\<close>

definition controlRegex :: regexp where
  "controlRegex s =
     (let run = takeWhile (\<lambda>c. c \<in> {CR, VT, FF}) s in if run \<noteq> [] then Some [run] else None)"

text \<open>\<^verbatim>\<open>\n{3,}\<close>: the longest run of newlines, when it has three or more.\<close>

definition newlinesRegex :: regexp where
  "newlinesRegex s =
     (let run = takeWhile (\<lambda>c. c = NL) s in if 3 \<le> length run then Some [run] else None)"

definition trimVerticalWhitespace :: "string \<Rightarrow> string" where
  "trimVerticalWhitespace content =
     (let content1 = replaceAllString escapeRegex content [NL];
          content2 = replaceAllString controlRegex content1 [NL]
      in replaceAllString newlinesRegex content2 [NL, NL])"

section \<open>The two renderings\<close>

definition plainProcessContent :: "airportMap \<Rightarrow> string \<Rightarrow> panic + string" where
  "plainProcessContent m content =
     (case plainProcessAirportCodes m content of Inl p \<Rightarrow> Inl p | Inr content1 \<Rightarrow>
      case plainProcessDatesAndTimes content1 of Inl p \<Rightarrow> Inl p | Inr content2 \<Rightarrow>
      Inr (trimVerticalWhitespace (trimHorizontalWhitespace content2)))"

definition highlightProcessContent :: "airportMap \<Rightarrow> string \<Rightarrow> panic + string" where
  "highlightProcessContent m content =
     (case processAirportCodes m content of Inl p \<Rightarrow> Inl p | Inr content1 \<Rightarrow>
      case processDatesAndTimes content1 of Inl p \<Rightarrow> Inl p | Inr content2 \<Rightarrow>
      Inr (trimVerticalWhitespace (trimHorizontalWhitespace content2)))"

section \<open>Loading the directory\<close>

text \<open>
  The state \<open>loadAirportData\<close> works on: the global \<open>airportMap\<close>, and how many \<open>Airport\<close>
  records have been allocated (the next one gets this number as its address).
\<close>

record world =
  airports :: airportMap
  allocated :: nat

datatype loadError =
  ReadFailed | MissingColumn string | MalformedRecord | EmptyName | NoCode

definition toLower :: "string \<Rightarrow> string" where
  "toLower s =
     map (\<lambda>c. case map_of (zip ''ABCDEFGHIJKLMNOPQRSTUVWXYZ'' ''abcdefghijklmnopqrstuvwxyz'') c of
                 Some l \<Rightarrow> l | None \<Rightarrow> c) s"

definition requiredColumns :: "string list" where
  "requiredColumns =
     [''name'', ''iso_country'', ''municipality'', ''icao_code'', ''iata_code'', ''coordinates'']"

text \<open>The loop over the header: a later column of the same name replaces an earlier one.\<close>

definition columnMapOf :: "string list \<Rightarrow> (string \<rightharpoonup> nat)" where
  "columnMapOf header =
     foldl (\<lambda>cm (i, column). cm(trimSpace (toLower column) \<mapsto> i)) Map.empty
       (zip [0..<length header] header)"

text \<open>\<open>record[columnMap[key]]\<close>: a key that is absent reads as 0; the index may panic.\<close>

definition field :: "(string \<rightharpoonup> nat) \<Rightarrow> string list \<Rightarrow> string \<Rightarrow> panic + string" where
  "field cm record key = index record (case cm key of Some i \<Rightarrow> int i | None \<Rightarrow> 0)"

text \<open>
  The loop over the records.  The result is the panic that stopped the program, or the
  error returned (\<open>None\<close> is \<open>nil\<close>) with the state left behind.
\<close>

fun loadRecords ::
  "(string \<rightharpoonup> nat) \<Rightarrow> nat \<Rightarrow> string list list \<Rightarrow> world \<Rightarrow> panic + (loadError option \<times> world)" where
  "loadRecords cm n [] w = Inr (None, w)"
| "loadRecords cm n (record # rest) w =
     (if length record = 0 then loadRecords cm n rest w
      else if length record \<noteq> n then Inr (Some MalformedRecord, w)
      else
        case field cm record ''name'' of Inl p \<Rightarrow> Inl p | Inr name \<Rightarrow>
        case field cm record ''iata_code'' of Inl p \<Rightarrow> Inl p | Inr iataCode \<Rightarrow>
        case field cm record ''icao_code'' of Inl p \<Rightarrow> Inl p | Inr icaoCode \<Rightarrow>
        if trimSpace name = [] then Inr (Some EmptyName, w)
        else if trimSpace iataCode = [] \<and> trimSpace icaoCode = [] then Inr (Some NoCode, w)
        else
          case field cm record ''iso_country'' of Inl p \<Rightarrow> Inl p | Inr isoCountry \<Rightarrow>
          case field cm record ''municipality'' of Inl p \<Rightarrow> Inl p | Inr municipality \<Rightarrow>
          case field cm record ''coordinates'' of Inl p \<Rightarrow> Inl p | Inr coordinates \<Rightarrow>
          let airport = Ptr (allocated w)
                \<lparr>Name = name, ISOCountry = isoCountry, Municipality = municipality,
                 ICAOCode = icaoCode, IATACode = iataCode, Coordinates = coordinates\<rparr>;
              m1 = (if iataCode \<noteq> [] then (airports w)(iataCode \<mapsto> airport) else airports w);
              m2 = (if icaoCode \<noteq> [] then m1(icaoCode \<mapsto> airport) else m1)
          in loadRecords cm n rest \<lparr>airports = m2, allocated = allocated w + 1\<rparr>)"

text \<open>
  \<open>loadAirportData\<close>, from what the CSV reader hands over: \<open>header\<close> is the result of
  \<open>reader.Read()\<close> and \<open>records\<close> that of \<open>reader.ReadAll()\<close>, \<open>None\<close> when the call (or
  opening the file) returned an error.
\<close>

definition loadAirportData ::
  "string list option \<Rightarrow> string list list option \<Rightarrow> world \<Rightarrow> panic + (loadError option \<times> world)" where
  "loadAirportData headerRead recordsRead w =
     (case headerRead of None \<Rightarrow> Inr (Some ReadFailed, w) | Some header \<Rightarrow>
      let columnMap = columnMapOf header in
      case find (\<lambda>req. columnMap req = None) requiredColumns of
        Some req \<Rightarrow> Inr (Some (MissingColumn req), w)
      | None \<Rightarrow>
          let w1 = w\<lparr>airports := Map.empty\<rparr> in
          case recordsRead of None \<Rightarrow> Inr (Some ReadFailed, w1)
          | Some records \<Rightarrow> loadRecords columnMap (length header) records w1)"

text \<open>\<open>Lookup\<close>: reading the directory.\<close>

definition Lookup :: "world \<Rightarrow> string \<Rightarrow> airportPtr option" where
  "Lookup w code = airports w code"

section \<open>Notions used in the statements\<close>

text \<open>
  The text a scan is turned into when every match \<open>m\<close> is replaced by \<open>g m\<close>: what
  \<open>ReplaceAllStringFunc\<close> returns when its function does not panic.
\<close>

definition render :: "(string \<Rightarrow> string) \<Rightarrow> (string + char) list \<Rightarrow> string" where
  "render g segs = concat (map (\<lambda>seg. case seg of Inl m \<Rightarrow> g m | Inr c \<Rightarrow> [c]) segs)"

text \<open>
  What an airport-code token is replaced by: \<open>k\<close> is the number of \<open>#\<close> of the pattern,
  so the code is what follows the optional star and the \<open>k\<close> signs.
\<close>

definition codeText ::
  "nat \<Rightarrow> (airportPtr \<Rightarrow> string) \<Rightarrow> (airportPtr \<Rightarrow> string) \<Rightarrow> airportMap \<Rightarrow> string \<Rightarrow> string" where
  "codeText k city airport m match =
     (case m (drop (length (optStar match) + k) match) of
        Some a \<Rightarrow> if optStar match = ''*'' then city a else airport a
      | None \<Rightarrow> match)"

text \<open>What a date or time token is replaced by: \<open>n\<close> is the length of the opening literal.\<close>

definition stampText :: "nat \<Rightarrow> (goTime \<Rightarrow> string) \<Rightarrow> string \<Rightarrow> string" where
  "stampText n rend match =
     (case parseTimestamp (take (length match - Suc n) (drop n match)) of
        Some t \<Rightarrow> rend t
      | None \<Rightarrow> match)"

section \<open>Example data\<close>

definition airportX :: airportPtr where
  "airportX = Ptr 0 \<lparr>Name = ''X'', ISOCountry = ''US'', Municipality = ''Xcity'',
     ICAOCode = [], IATACode = ''ABC'', Coordinates = ''0, 0''\<rparr>"

definition airportY :: airportPtr where
  "airportY = Ptr 1 \<lparr>Name = ''Y'', ISOCountry = ''US'', Municipality = ''Ycity'',
     ICAOCode = ''ABCD'', IATACode = [], Coordinates = ''1, 1''\<rparr>"

definition directoryXY :: airportMap where
  "directoryXY = [''ABC'' \<mapsto> airportX, ''ABCD'' \<mapsto> airportY]"

section \<open>Notions used in the statements about the directory\<close>

text \<open>The field of a record under the column of the given name, when the index is in range.\<close>

definition cell :: "(string \<rightharpoonup> nat) \<Rightarrow> string list \<Rightarrow> string \<Rightarrow> string" where
  "cell cm record key = record ! (case cm key of Some i \<Rightarrow> i | None \<Rightarrow> 0)"

text \<open>What the loop decides about one record: the error it returns for it, if any.\<close>

definition rowError :: "(string \<rightharpoonup> nat) \<Rightarrow> nat \<Rightarrow> string list \<Rightarrow> loadError option" where
  "rowError cm n record =
     (if record = [] then None
      else if length record \<noteq> n then Some MalformedRecord
      else if trimSpace (cell cm record ''name'') = [] then Some EmptyName
      else if trimSpace (cell cm record ''iata_code'') = [] \<and> trimSpace (cell cm record ''icao_code'') = []
      then Some NoCode
      else None)"

text \<open>The \<open>Airport\<close> built from a record.\<close>

definition airportOf :: "(string \<rightharpoonup> nat) \<Rightarrow> string list \<Rightarrow> Airport" where
  "airportOf cm record =
     \<lparr>Name = cell cm record ''name'', ISOCountry = cell cm record ''iso_country'',
      Municipality = cell cm record ''municipality'', ICAOCode = cell cm record ''icao_code'',
      IATACode = cell cm record ''iata_code'', Coordinates = cell cm record ''coordinates''\<rparr>"



definition hasColumn :: "string list \<Rightarrow> string \<Rightarrow> bool" where
  "hasColumn header name = (name \<in> set (map (\<lambda>column. trimSpace (toLower column)) header))"



text \<open>An empty state, and two reference tables.\<close>

definition world0 :: world where
  "world0 = \<lparr>airports = Map.empty, allocated = 0\<rparr>"

definition rowA :: "string list" where
  "rowA = [''Alpha Field'', ''US'', ''Alphaville'', ''KAAA'', ''AAA'', ''1, 1'']"

definition rowNoName :: "string list" where
  "rowNoName = ['' '', ''US'', ''Betatown'', ''KBBB'', ''BBB'', ''2, 2'']"

definition rowB :: "string list" where
  "rowB = [''Beta Field'', ''US'', ''Betatown'', ''KBBB'', ''AAA'', ''2, 2'']"

definition rowC :: "string list" where
  "rowC = [''Gamma Field'', ''US'', ''Gammaton'', ''KCCC'', ''CCC'', ''3, 3'']"

definition airportA :: Airport where
  "airportA = \<lparr>Name = ''Alpha Field'', ISOCountry = ''US'', Municipality = ''Alphaville'',
     ICAOCode = ''KAAA'', IATACode = ''AAA'', Coordinates = ''1, 1''\<rparr>"

definition airportB :: Airport where
  "airportB = \<lparr>Name = ''Beta Field'', ISOCountry = ''US'', Municipality = ''Betatown'',
     ICAOCode = ''KBBB'', IATACode = ''AAA'', Coordinates = ''2, 2''\<rparr>"

definition airportC :: Airport where
  "airportC = \<lparr>Name = ''Gamma Field'', ISOCountry = ''US'', Municipality = ''Gammaton'',
     ICAOCode = ''KCCC'', IATACode = ''CCC'', Coordinates = ''3, 3''\<rparr>"

definition worldA :: world where
  "worldA = \<lparr>airports = [''AAA'' \<mapsto> Ptr 0 airportA, ''KAAA'' \<mapsto> Ptr 0 airportA], allocated = 1\<rparr>"

definition worldAB :: world where
  "worldAB = \<lparr>airports = [''AAA'' \<mapsto> Ptr 0 airportA, ''KAAA'' \<mapsto> Ptr 0 airportA,
                            ''AAA'' \<mapsto> Ptr 1 airportB, ''KBBB'' \<mapsto> Ptr 1 airportB],
              allocated = 2\<rparr>"

definition worldAC :: world where
  "worldAC = \<lparr>airports = [''AAA'' \<mapsto> Ptr 0 airportA, ''KAAA'' \<mapsto> Ptr 0 airportA,
                            ''CCC'' \<mapsto> Ptr 1 airportC, ''KCCC'' \<mapsto> Ptr 1 airportC],
              allocated = 2\<rparr>"

section \<open>Notions used in the statements about white space\<close>

text \<open>
  The vertical collapse as the specification words it, step by step:
  every backslash followed by \<open>r\<close>, \<open>v\<close> or \<open>f\<close> becomes a newline;
\<close>

fun escapesToNewlines :: "string \<Rightarrow> string" where
  "escapesToNewlines (a # b # rest) =
     (if a = BSL \<and> b \<in> {CHR ''r'', CHR ''v'', CHR ''f''} then NL # escapesToNewlines rest
      else a # escapesToNewlines (b # rest))"
| "escapesToNewlines s = s"

text \<open>every run of carriage returns, vertical tabs and form feeds becomes one newline (written at the end of the run);\<close>

fun controlRunsToNewline :: "string \<Rightarrow> string" where
  "controlRunsToNewline [] = []"
| "controlRunsToNewline (c # cs) =
     (if c \<in> {CR, VT, FF}
      then (if cs \<noteq> [] \<and> hd cs \<in> {CR, VT, FF} then controlRunsToNewline cs
            else NL # controlRunsToNewline cs)
      else c # controlRunsToNewline cs)"

text \<open>and a newline that two more newlines follow is dropped, which leaves two of every run of three or more.\<close>

fun collapseNewlines :: "string \<Rightarrow> string" where
  "collapseNewlines (a # b # c # rest) =
     (if a = NL \<and> b = NL \<and> c = NL then collapseNewlines (b # c # rest)
      else a # collapseNewlines (b # c # rest))"
| "collapseNewlines s = s"

text \<open>Three newlines in a row, somewhere in the text: two blank lines or more.\<close>

fun hasTripleNewline :: "string \<Rightarrow> bool" where
  "hasTripleNewline (a # b # c # rest) =
     ((a = NL \<and> b = NL \<and> c = NL) \<or> hasTripleNewline (b # c # rest))"
| "hasTripleNewline s = False"

text \<open>A literal escape sequence, somewhere in the text.\<close>

fun hasEscape :: "string \<Rightarrow> bool" where
  "hasEscape (a # b # rest) =
     ((a = BSL \<and> b \<in> {CHR ''r'', CHR ''v'', CHR ''f''}) \<or> hasEscape (b # rest))"
| "hasEscape s = False"

text \<open>White-space normalization: the horizontal step, then the vertical step.\<close>

definition normalizeWhitespace :: "string \<Rightarrow> string" where
  "normalizeWhitespace s = trimVerticalWhitespace (trimHorizontalWhitespace s)"

section \<open>Notions used in the statement about the two renderings\<close>

text \<open>
  Stripping the style markers: every ANSI sequence \<^verbatim>\<open>\x1b\[[0-9;]*m\<close> (the escape
  character, a bracket, digits and semicolons, the letter \<open>m\<close>) is replaced by nothing.
\<close>

definition ansiRegex :: regexp where
  "ansiRegex s =
     (let r = drop 2 s; params = takeWhile (\<lambda>c. c \<in> set ''0123456789;'') r in
      if take 2 s = [ESC, CHR ''[''] \<and> take 1 (dropWhile (\<lambda>c. c \<in> set ''0123456789;'') r) = ''m''
      then Some [[ESC, CHR ''[''] @ params @ ''m''] else None)"

definition stripStyle :: "string \<Rightarrow> string" where
  "stripStyle s = replaceAllString ansiRegex s []"

text \<open>A directory whose airport has a name that starts with a space.\<close>

definition airportS :: airportPtr where
  "airportS = Ptr 0 \<lparr>Name = '' Spaced Field'', ISOCountry = ''US'', Municipality = ''Spacetown'',
     ICAOCode = ''KSPC'', IATACode = ''SPC'', Coordinates = ''4, 4''\<rparr>"

definition directoryS :: airportMap where
  "directoryS = [''SPC'' \<mapsto> airportS, ''KSPC'' \<mapsto> airportS]"

section \<open>Facts about scanning\<close>

lemma scan_Cons_cases:
  "scan re (c # cs) = Inr c # scan re cs \<or>
   (\<exists>m gs. re (c # cs) = Some (m # gs) \<and> m \<noteq> [] \<and>
      scan re (c # cs) = Inl m # scan re (drop (length m) (c # cs)))"
  by (auto split: option.splits list.splits)

lemma scan_matches:
  "Inl m \<in> set (scan re s) \<Longrightarrow> \<exists>t gs. re t = Some (m # gs) \<and> m \<noteq> [] \<and> set t \<subseteq> set s"
proof (induction s rule: length_induct)
  case (1 s)
  show ?case
  proof (cases s)
    case Nil
    with 1 show ?thesis by simp
  next
    case (Cons c cs)
    from scan_Cons_cases[of re c cs] show ?thesis
    proof
      assume "scan re (c # cs) = Inr c # scan re cs"
      with 1(2) Cons have "Inl m \<in> set (scan re cs)" by simp
      with 1(1) Cons obtain t gs where "re t = Some (m # gs)" "m \<noteq> []" "set t \<subseteq> set cs"
        by force
      with Cons show ?thesis by auto
    next
      assume "\<exists>m gs. re (c # cs) = Some (m # gs) \<and> m \<noteq> [] \<and>
        scan re (c # cs) = Inl m # scan re (drop (length m) (c # cs))"
      then obtain m' gs where m': "re (c # cs) = Some (m' # gs)" "m' \<noteq> []"
        "scan re (c # cs) = Inl m' # scan re (drop (length m') (c # cs))" by blast
      with 1(2) Cons consider "m = m'" | "Inl m \<in> set (scan re (drop (length m') (c # cs)))"
        by auto
      then show ?thesis
      proof cases
        case 1
        with m' Cons show ?thesis by blast
      next
        case 2
        have "length (drop (length m') (c # cs)) < length s" using m'(2) Cons by simp
        with 1(1) 2 obtain t gs' where "re t = Some (m # gs')" "m \<noteq> []"
          "set t \<subseteq> set (drop (length m') (c # cs))" by blast
        moreover have "set (drop (length m') (c # cs)) \<subseteq> set (c # cs)"
          by (rule set_drop_subset)
        ultimately show ?thesis using Cons by blast
      qed
    qed
  qed
qed

lemma scan_chars: "Inr c \<in> set (scan re s) \<Longrightarrow> c \<in> set s"
proof (induction s rule: length_induct)
  case (1 s)
  show ?case
  proof (cases s)
    case Nil
    with 1 show ?thesis by simp
  next
    case (Cons c' cs)
    from scan_Cons_cases[of re c' cs] show ?thesis
    proof
      assume "scan re (c' # cs) = Inr c' # scan re cs"
      with 1(2) Cons have "c = c' \<or> Inr c \<in> set (scan re cs)" by auto
      with 1(1) Cons show ?thesis by auto
    next
      assume "\<exists>m gs. re (c' # cs) = Some (m # gs) \<and> m \<noteq> [] \<and>
        scan re (c' # cs) = Inl m # scan re (drop (length m) (c' # cs))"
      then obtain m' gs where m': "m' \<noteq> []"
        "scan re (c' # cs) = Inl m' # scan re (drop (length m') (c' # cs))" by blast
      with 1(2) Cons have 2: "Inr c \<in> set (scan re (drop (length m') (c' # cs)))" by auto
      have "length (drop (length m') (c' # cs)) < length s" using m'(1) Cons by simp
      with 1(1) 2 have "c \<in> set (drop (length m') (c' # cs))" by blast
      then show ?thesis using Cons by (auto dest: in_set_dropD)
    qed
  qed
qed

lemma optStar_cases: "optStar s = [] \<or> optStar s = ''*''"
  by (simp add: optStar_def)

lemma optStar_prefix: "optStar s @ drop (length (optStar s)) s = s"
  by (cases s) (auto simp: optStar_def)

lemma iataRegex_shape:
  assumes "iataRegex t = Some g"
  shows "\<exists>star code. g = [star @ ''#'' @ code, star, code] \<and> (star = [] \<or> star = ''*'') \<and>
           length code = 3 \<and> list_all isUpper code \<and> set (star @ ''#'' @ code) \<subseteq> set t"
proof -
  define star where "star = optStar t"
  define r where "r = drop (length star) t"
  define code where "code = take 3 (drop 1 r)"
  have "iataRegex t = (if take 1 r = ''#'' \<and> length code = 3 \<and> list_all isUpper code
      then Some [star @ ''#'' @ code, star, code] else None)"
    by (simp add: iataRegex_def Let_def star_def r_def code_def)
  with assms have c: "take 1 r = ''#''" "length code = 3" "list_all isUpper code"
    and g: "g = [star @ ''#'' @ code, star, code]"
    by (simp_all split: if_splits)
  have t: "t = star @ r" using optStar_prefix[of t] by (simp add: star_def r_def)
  have "set code \<subseteq> set r" unfolding code_def
    by (meson set_take_subset set_drop_subset subset_trans)
  moreover have "CHR ''#'' \<in> set r" using c(1) by (cases r) auto
  ultimately have "set (star @ ''#'' @ code) \<subseteq> set t" using t by auto
  with g c optStar_cases[of t] show ?thesis unfolding star_def by blast
qed

lemma optStar_append: "star = [] \<or> star = ''*'' \<Longrightarrow> optStar (star @ CHR ''#'' # rest) = star"
  by (auto simp: optStar_def)

lemma iataRegex_self:
  assumes "star = [] \<or> star = ''*''" "length code = 3" "list_all isUpper code"
  shows "iataRegex (star @ ''#'' @ code @ rest) = Some [star @ ''#'' @ code, star, code]"
proof -
  have "optStar (star @ ''#'' @ code @ rest) = star" using optStar_append[OF assms(1)] by simp
  then show ?thesis using assms(2,3) by (simp add: iataRegex_def Let_def)
qed

lemma icaoRegex_shape:
  assumes "icaoRegex t = Some g"
  shows "\<exists>star code. g = [star @ ''##'' @ code, star, code] \<and> (star = [] \<or> star = ''*'') \<and>
           length code = 4 \<and> list_all isUpper code \<and> set (star @ ''##'' @ code) \<subseteq> set t"
proof -
  define star where "star = optStar t"
  define r where "r = drop (length star) t"
  define code where "code = take 4 (drop 2 r)"
  have "icaoRegex t = (if take 2 r = ''##'' \<and> length code = 4 \<and> list_all isUpper code
      then Some [star @ ''##'' @ code, star, code] else None)"
    by (simp add: icaoRegex_def Let_def star_def r_def code_def)
  with assms have c: "take 2 r = ''##''" "length code = 4" "list_all isUpper code"
    and g: "g = [star @ ''##'' @ code, star, code]"
    by (simp_all split: if_splits)
  have t: "t = star @ r" using optStar_prefix[of t] by (simp add: star_def r_def)
  have "set code \<subseteq> set r" unfolding code_def
    by (meson set_take_subset set_drop_subset subset_trans)
  moreover have "CHR ''#'' \<in> set r" using c(1) by (cases r) auto
  ultimately have "set (star @ ''##'' @ code) \<subseteq> set t" using t by auto
  with g c optStar_cases[of t] show ?thesis unfolding star_def by blast
qed

lemma icaoRegex_self:
  assumes "star = [] \<or> star = ''*''" "length code = 4" "list_all isUpper code"
  shows "icaoRegex (star @ ''##'' @ code @ rest) = Some [star @ ''##'' @ code, star, code]"
proof -
  have "optStar (star @ ''##'' @ code @ rest) = star" using optStar_append[OF assms(1)] by simp
  then show ?thesis using assms(2,3) by (simp add: icaoRegex_def Let_def)
qed

lemma tokenRegex_shape:
  assumes "tokenRegex lit t = Some g"
  shows "\<exists>inner. g = [lit @ inner @ '')'', inner] \<and> 16 \<le> length inner \<and> list_all tsClass inner \<and>
           set (lit @ inner @ '')'') \<subseteq> set t"
proof -
  define r where "r = drop (length lit) t"
  define inner where "inner = takeWhile tsClass r"
  have "tokenRegex lit t = (if take (length lit) t = lit \<and> 16 \<le> length inner \<and>
       take 1 (dropWhile tsClass r) = '')'' then Some [lit @ inner @ '')'', inner] else None)"
    by (simp add: tokenRegex_def Let_def r_def inner_def)
  with assms have c: "take (length lit) t = lit" "16 \<le> length inner" "take 1 (dropWhile tsClass r) = '')''"
    and g: "g = [lit @ inner @ '')'', inner]"
    by (simp_all split: if_splits)
  have t: "t = lit @ r" using c(1) append_take_drop_id[of "length lit" t] by (simp add: r_def)
  have r: "r = inner @ dropWhile tsClass r" by (simp add: inner_def)
  have "CHR '')'' \<in> set (dropWhile tsClass r)" using c(3) by (cases "dropWhile tsClass r") auto
  then have "CHR '')'' \<in> set r" using r by (metis Un_iff set_append)
  moreover have "set inner \<subseteq> set r" using r by (metis Un_upper1 set_append)
  ultimately have "set (lit @ inner @ '')'') \<subseteq> set t" using t by auto
  moreover have "list_all tsClass inner" unfolding inner_def list_all_iff
    by (auto dest: set_takeWhileD)
  ultimately show ?thesis using g c(2) by blast
qed

lemma findStringSubmatch_head:
  "re m = Some g \<Longrightarrow> findStringSubmatch re m = g"
  by (cases m) auto

lemma codeRepl_groups:
  assumes "re m = Some [m, star, code]"
  shows "codeRepl re city airport d m =
         Inr (case d code of Some a \<Rightarrow> if star = ''*'' then city a else airport a | None \<Rightarrow> m)"
  using findStringSubmatch_head[of re m, OF assms]
  by (simp add: codeRepl_def index_def split: option.splits)

lemma codeRepl_iata:
  assumes "star = [] \<or> star = ''*''" "length code = 3" "list_all isUpper code"
  shows "codeRepl iataRegex city airport d (star @ ''#'' @ code) =
         Inr (case d code of Some a \<Rightarrow> if star = ''*'' then city a else airport a
              | None \<Rightarrow> star @ ''#'' @ code)"
  using iataRegex_self[OF assms, of "[]"] by (simp add: codeRepl_groups split: option.splits)

lemma codeRepl_icao:
  assumes "star = [] \<or> star = ''*''" "length code = 4" "list_all isUpper code"
  shows "codeRepl icaoRegex city airport d (star @ ''##'' @ code) =
         Inr (case d code of Some a \<Rightarrow> if star = ''*'' then city a else airport a
              | None \<Rightarrow> star @ ''##'' @ code)"
  using icaoRegex_self[OF assms, of "[]"] by (simp add: codeRepl_groups split: option.splits)

lemma stampRepl_token:
  "stampRepl (int (length lit)) rend (lit @ inner @ '')'') =
   Inr (case parseTimestamp inner of None \<Rightarrow> lit @ inner @ '')'' | Some t \<Rightarrow> rend t)"
  by (simp add: stampRepl_def slice_def split: option.splits)

lemma concatResults_pure:
  "\<forall>m. Inl m \<in> set segs \<longrightarrow> f m = Inr (g m) \<Longrightarrow>
   concatResults (map (\<lambda>seg. case seg of Inl m \<Rightarrow> f m | Inr c \<Rightarrow> Inr [c]) segs) =
   Inr (render g segs)"
proof (induction segs)
  case Nil
  then show ?case by (simp add: render_def)
next
  case (Cons seg segs)
  then show ?case by (cases seg) (auto simp: render_def)
qed

lemma replaceAllStringFunc_pure:
  assumes "\<And>t m gs. re t = Some (m # gs) \<Longrightarrow> f m = Inr (g m)"
  shows "replaceAllStringFunc re s f = Inr (render g (scan re s))"
  unfolding replaceAllStringFunc_def
proof (rule concatResults_pure, intro allI impI)
  fix m assume "Inl m \<in> set (scan re s)"
  then obtain t gs where "re t = Some (m # gs)" using scan_matches by blast
  then show "f m = Inr (g m)" by (rule assms)
qed

lemma replaceAllString_render: "replaceAllString re s repl = render (\<lambda>m. repl) (scan re s)"
  by (simp add: replaceAllString_def render_def)

lemma codeRepl_iata_text:
  assumes "iataRegex t = Some (m # gs)"
  shows "codeRepl iataRegex city airport d m = Inr (codeText 1 city airport d m)"
proof -
  from iataRegex_shape[OF assms] obtain star code where
    g: "m = star @ ''#'' @ code" and s: "star = [] \<or> star = ''*''"
    and c: "length code = 3" "list_all isUpper code" by auto
  have "optStar m = star" using optStar_append[OF s] g by simp
  then have "codeText 1 city airport d m =
      (case d code of Some a \<Rightarrow> if star = ''*'' then city a else airport a | None \<Rightarrow> m)"
    using g by (simp add: codeText_def split: option.splits)
  with codeRepl_iata[OF s c, of city airport d] g show ?thesis by (simp split: option.splits)
qed

lemma codeRepl_icao_text:
  assumes "icaoRegex t = Some (m # gs)"
  shows "codeRepl icaoRegex city airport d m = Inr (codeText 2 city airport d m)"
proof -
  from icaoRegex_shape[OF assms] obtain star code where
    g: "m = star @ ''##'' @ code" and s: "star = [] \<or> star = ''*''"
    and c: "length code = 4" "list_all isUpper code" by auto
  have "optStar m = star" using optStar_append[OF s] g by simp
  then have "codeText 2 city airport d m =
      (case d code of Some a \<Rightarrow> if star = ''*'' then city a else airport a | None \<Rightarrow> m)"
    using g by (simp add: codeText_def split: option.splits)
  with codeRepl_icao[OF s c, of city airport d] g show ?thesis by (simp split: option.splits)
qed

lemma stampRepl_text:
  assumes "tokenRegex lit t = Some (m # gs)"
  shows "stampRepl (int (length lit)) rend m = Inr (stampText (length lit) rend m)"
proof -
  from tokenRegex_shape[OF assms] obtain inner where g: "m = lit @ inner @ '')''" by auto
  show ?thesis unfolding g stampRepl_token by (simp add: stampText_def split: option.splits)
qed

lemma plainIataPass_render:
  "plainIataPass d s = Inr (render (codeText 1 plainCity plainAirport d) (scan iataRegex s))"
  unfolding plainIataPass_def by (rule replaceAllStringFunc_pure) (rule codeRepl_iata_text)

lemma plainIcaoPass_render:
  "plainIcaoPass d s = Inr (render (codeText 2 plainCity plainAirport d) (scan icaoRegex s))"
  unfolding plainIcaoPass_def by (rule replaceAllStringFunc_pure) (rule codeRepl_icao_text)

lemma highlightIataPass_render:
  "highlightIataPass d s = Inr (render (codeText 1 highlightCity highlightAirport d) (scan iataRegex s))"
  unfolding highlightIataPass_def by (rule replaceAllStringFunc_pure) (rule codeRepl_iata_text)

lemma highlightIcaoPass_render:
  "highlightIcaoPass d s = Inr (render (codeText 2 highlightCity highlightAirport d) (scan icaoRegex s))"
  unfolding highlightIcaoPass_def by (rule replaceAllStringFunc_pure) (rule codeRepl_icao_text)

lemma stampPass_render:
  "n = length lit \<Longrightarrow>
   replaceAllStringFunc (tokenRegex lit) s (stampRepl (int n) rend) =
   Inr (render (stampText n rend) (scan (tokenRegex lit) s))"
  by (simp, rule replaceAllStringFunc_pure) (rule stampRepl_text)

lemma plainDatePass_render:
  "plainDatePass s = Inr (render (stampText 2 plainDate) (scan dateRegex s))"
  using stampPass_render[of 2 "''D(''" s plainDate] by (simp add: plainDatePass_def dateRegex_def)

lemma plainTime12Pass_render:
  "plainTime12Pass s = Inr (render (stampText 4 plainTime12) (scan time12Regex s))"
  using stampPass_render[of 4 "''T12(''" s plainTime12] by (simp add: plainTime12Pass_def time12Regex_def)

lemma plainTime24Pass_render:
  "plainTime24Pass s = Inr (render (stampText 4 plainTime24) (scan time24Regex s))"
  using stampPass_render[of 4 "''T24(''" s plainTime24] by (simp add: plainTime24Pass_def time24Regex_def)

lemma highlightDatePass_render:
  "highlightDatePass s = Inr (render (stampText 2 highlightDate) (scan dateRegex s))"
  using stampPass_render[of 2 "''D(''" s highlightDate] by (simp add: highlightDatePass_def dateRegex_def)

lemma highlightTime12Pass_render:
  "highlightTime12Pass s = Inr (render (stampText 4 highlightTime12) (scan time12Regex s))"
  using stampPass_render[of 4 "''T12(''" s highlightTime12]
  by (simp add: highlightTime12Pass_def time12Regex_def)

lemma highlightTime24Pass_render:
  "highlightTime24Pass s = Inr (render (stampText 4 highlightTime24) (scan time24Regex s))"
  using stampPass_render[of 4 "''T24(''" s highlightTime24]
  by (simp add: highlightTime24Pass_def time24Regex_def)

section \<open>The transformation does not panic\<close>

lemma plainProcessAirportCodes_render:
  "plainProcessAirportCodes d s =
   Inr (render (codeText 2 plainCity plainAirport d)
         (scan icaoRegex (render (codeText 1 plainCity plainAirport d) (scan iataRegex s))))"
  by (simp add: plainProcessAirportCodes_def plainIataPass_render plainIcaoPass_render)

lemma processAirportCodes_render:
  "processAirportCodes d s =
   Inr (render (codeText 2 highlightCity highlightAirport d)
         (scan icaoRegex (render (codeText 1 highlightCity highlightAirport d) (scan iataRegex s))))"
  by (simp add: processAirportCodes_def highlightIataPass_render highlightIcaoPass_render)






lemma scan_none:
  "(\<And>t. set t \<subseteq> set s \<Longrightarrow> re t = None) \<Longrightarrow> scan re s = map Inr s"
proof (induction s)
  case Nil
  then show ?case by simp
next
  case (Cons c cs)
  have "re (c # cs) = None" using Cons.prems by blast
  moreover have "scan re cs = map Inr cs"
  proof (rule Cons.IH)
    fix t assume "set t \<subseteq> set cs"
    then have "set t \<subseteq> set (c # cs)" by auto
    then show "re t = None" by (rule Cons.prems)
  qed
  ultimately show ?case by simp
qed

lemma render_chars: "render g (map Inr s) = s"
  by (induction s) (simp_all add: render_def)

lemma iataRegex_needs_hash: "CHR ''#'' \<notin> set t \<Longrightarrow> iataRegex t = None"
proof (rule ccontr)
  assume a: "CHR ''#'' \<notin> set t" and "iataRegex t \<noteq> None"
  then obtain g where "iataRegex t = Some g" by auto
  from iataRegex_shape[OF this] a show False by auto
qed

lemma icaoRegex_needs_hash: "CHR ''#'' \<notin> set t \<Longrightarrow> icaoRegex t = None"
proof (rule ccontr)
  assume a: "CHR ''#'' \<notin> set t" and "icaoRegex t \<noteq> None"
  then obtain g where "icaoRegex t = Some g" by auto
  from icaoRegex_shape[OF this] a show False by auto
qed

lemma plainProcessAirportCodes_no_hash:
  assumes "CHR ''#'' \<notin> set s"
  shows "plainProcessAirportCodes d s = Inr s"
proof -
  have "scan iataRegex s = map Inr s" using assms by (intro scan_none iataRegex_needs_hash) auto
  moreover have "scan icaoRegex s = map Inr s" using assms by (intro scan_none icaoRegex_needs_hash) auto
  ultimately show ?thesis by (simp add: plainProcessAirportCodes_render render_chars)
qed

lemma processAirportCodes_no_hash:
  assumes "CHR ''#'' \<notin> set s"
  shows "processAirportCodes d s = Inr s"
proof -
  have "scan iataRegex s = map Inr s" using assms by (intro scan_none iataRegex_needs_hash) auto
  moreover have "scan icaoRegex s = map Inr s" using assms by (intro scan_none icaoRegex_needs_hash) auto
  ultimately show ?thesis by (simp add: processAirportCodes_render render_chars)
qed

section \<open>Facts about the zone of a time\<close>

lemma parseDateTime_zone: "parseDateTime v = Some (t, r) \<Longrightarrow> zoneOffset t = 0"
  by (auto simp: parseDateTime_def split: if_splits option.splits prod.splits)

lemma parseLayoutZ_zone: "parseLayoutZ v = Some t \<Longrightarrow> zoneOffset t = 0"
  by (auto simp: parseLayoutZ_def validDay_def dest: parseDateTime_zone
      split: if_splits option.splits prod.splits)

lemma zoneText_utc: "zoneOffset t = 0 \<Longrightarrow> zoneText t = ''(+00:00)''"
  by (simp add: zoneText_def formatZone_def pad2_def digitChar_def)

lemma parseTimestamp_Z: "parseLayoutZ v = Some t \<Longrightarrow> parseTimestamp v = Some t"
  by (simp add: parseTimestamp_def)

section \<open>A token inside a longer text\<close>

lemma list_upto5:
  obtains "x = []" | a where "x = [a]" | a b where "x = [a, b]" | a b c where "x = [a, b, c]"
  | a b c d where "x = [a, b, c, d]" | a b c d e r where "x = a # b # c # d # e # r"
proof (cases x)
  case Nil then show ?thesis using that by simp
next
  case (Cons a x1)
  then show ?thesis
  proof (cases x1)
    case Nil then show ?thesis using that Cons by simp
  next
    case (Cons b x2)
    note c2 = Cons
    then show ?thesis
    proof (cases x2)
      case Nil then show ?thesis using that \<open>x = a # x1\<close> c2 by simp
    next
      case (Cons c x3)
      note c3 = Cons
      then show ?thesis
      proof (cases x3)
        case Nil then show ?thesis using that \<open>x = a # x1\<close> c2 c3 by simp
      next
        case (Cons d x4)
        note c4 = Cons
        then show ?thesis
        proof (cases x4)
          case Nil then show ?thesis using that \<open>x = a # x1\<close> c2 c3 c4 by simp
        next
          case (Cons e r)
          then show ?thesis using that(6)[of a b c d e r] \<open>x = a # x1\<close> c2 c3 c4 by simp
        qed
      qed
    qed
  qed
qed

lemma not_upper_hash: "\<not> isUpper (CHR ''#'')" and not_upper_star: "\<not> isUpper (CHR ''*'')"
  by (simp_all add: isUpper_def)

lemma iataRegex_local:
  assumes "x \<noteq> []" "(c = CHR ''#'' \<and> last x \<noteq> CHR ''*'') \<or> c = CHR ''*''"
  shows "iataRegex (x @ c # y) = iataRegex x"
proof (cases x rule: list_upto5)
  case 1
  with assms show ?thesis by simp
next
  case (2 a)
  with assms show ?thesis
    by (auto simp: iataRegex_def optStar_def Let_def not_upper_hash not_upper_star)
next
  case (3 a b)
  with assms show ?thesis
    by (auto simp: iataRegex_def optStar_def Let_def not_upper_hash not_upper_star)
next
  case (4 a b c)
  with assms show ?thesis
    by (auto simp: iataRegex_def optStar_def Let_def not_upper_hash not_upper_star)
next
  case (5 a b c d)
  with assms show ?thesis
    by (auto simp: iataRegex_def optStar_def Let_def not_upper_hash not_upper_star)
next
  case (6 a b c d e r)
  then show ?thesis
    by (auto simp: iataRegex_def optStar_def Let_def)
qed

lemma icaoRegex_local:
  assumes "x \<noteq> []" "(t = ''##'' \<and> last x \<noteq> CHR ''*'') \<or> t = ''*##''"
  shows "icaoRegex (x @ t @ y) = icaoRegex x"
proof (cases x rule: list_upto5)
  case 1
  with assms show ?thesis by simp
next
  case (2 a)
  with assms show ?thesis
    by (auto simp: icaoRegex_def optStar_def Let_def not_upper_hash not_upper_star)
next
  case (3 a b)
  with assms show ?thesis
    by (auto simp: icaoRegex_def optStar_def Let_def not_upper_hash not_upper_star)
next
  case (4 a b c)
  with assms show ?thesis
    by (auto simp: icaoRegex_def optStar_def Let_def not_upper_hash not_upper_star)
next
  case (5 a b c d)
  with assms show ?thesis
    by (auto simp: icaoRegex_def optStar_def Let_def not_upper_hash not_upper_star)
next
  case (6 a b c d e r)
  show ?thesis
  proof (cases r)
    case Nil
    with 6 assms show ?thesis
      by (auto simp: icaoRegex_def optStar_def Let_def not_upper_hash not_upper_star)
  next
    case (Cons f r1)
    show ?thesis
    proof (cases r1)
      case Nil
      with 6 Cons assms show ?thesis
        by (auto simp: icaoRegex_def optStar_def Let_def not_upper_hash not_upper_star)
    next
      case (Cons g r2)
      with 6 \<open>r = f # r1\<close> show ?thesis
        by (auto simp: icaoRegex_def optStar_def Let_def)
    qed
  qed
qed

lemma iataRegex_text: "iataRegex t = Some (m # gs) \<Longrightarrow> \<exists>rest. t = m @ rest"
proof -
  assume a: "iataRegex t = Some (m # gs)"
  define star where "star = optStar t"
  define r where "r = drop (length star) t"
  define code where "code = take 3 (drop 1 r)"
  have "iataRegex t = (if take 1 r = ''#'' \<and> length code = 3 \<and> list_all isUpper code
      then Some [star @ ''#'' @ code, star, code] else None)"
    by (simp add: iataRegex_def Let_def star_def r_def code_def)
  with a have c: "take 1 r = ''#''" and m: "m = star @ ''#'' @ code"
    by (simp_all split: if_splits)
  have "t = star @ r" using optStar_prefix[of t] by (simp add: star_def r_def)
  also have "r = take 1 r @ drop 1 r" by simp
  also have "drop 1 r = code @ drop 3 (drop 1 r)" by (simp only: code_def append_take_drop_id)
  finally show ?thesis using c m by simp
qed

lemma icaoRegex_text: "icaoRegex t = Some (m # gs) \<Longrightarrow> \<exists>rest. t = m @ rest"
proof -
  assume a: "icaoRegex t = Some (m # gs)"
  define star where "star = optStar t"
  define r where "r = drop (length star) t"
  define code where "code = take 4 (drop 2 r)"
  have "icaoRegex t = (if take 2 r = ''##'' \<and> length code = 4 \<and> list_all isUpper code
      then Some [star @ ''##'' @ code, star, code] else None)"
    by (simp add: icaoRegex_def Let_def star_def r_def code_def)
  with a have c: "take 2 r = ''##''" and m: "m = star @ ''##'' @ code"
    by (simp_all split: if_splits)
  have "t = star @ r" using optStar_prefix[of t] by (simp add: star_def r_def)
  also have "r = take 2 r @ drop 2 r" by simp
  also have "drop 2 r = code @ drop 4 (drop 2 r)" by (simp only: code_def append_take_drop_id)
  finally show ?thesis using c m by simp
qed

lemma tokenRegex_text: "tokenRegex lit t = Some (m # gs) \<Longrightarrow> \<exists>rest. t = m @ rest"
proof -
  assume a: "tokenRegex lit t = Some (m # gs)"
  define r where "r = drop (length lit) t"
  define inner where "inner = takeWhile tsClass r"
  have "tokenRegex lit t = (if take (length lit) t = lit \<and> 16 \<le> length inner \<and>
       take 1 (dropWhile tsClass r) = '')'' then Some [lit @ inner @ '')'', inner] else None)"
    by (simp add: tokenRegex_def Let_def r_def inner_def)
  with a have c: "take (length lit) t = lit" "take 1 (dropWhile tsClass r) = '')''"
    and m: "m = lit @ inner @ '')''"
    by (simp_all split: if_splits)
  have "t = take (length lit) t @ r" by (simp add: r_def)
  moreover have "r = inner @ dropWhile tsClass r" by (simp add: inner_def)
  moreover obtain rest where "dropWhile tsClass r = CHR '')'' # rest"
    using c(2) by (cases "dropWhile tsClass r") auto
  ultimately have "t = (lit @ inner @ '')'') @ rest" using c(1) by simp
  then show ?thesis using m by blast
qed

lemma render_append: "render g (a @ b) = render g a @ render g b"
  by (simp add: render_def)

lemma render_Inl: "render g (Inl m # b) = g m @ render g b"
  by (simp add: render_def)

lemma render_Inr: "render g (Inr c # b) = c # render g b"
  by (simp add: render_def)

lemma scan_token_between:
  assumes pfx: "\<And>t m gs. re t = Some (m # gs) \<Longrightarrow> \<exists>rest. t = m @ rest"
    and tok: "re (tok @ suf) = Some (tok # gs)" "tok \<noteq> []"
  shows "(\<And>i. i < length pre \<Longrightarrow> re (drop i pre @ tok @ suf) = re (drop i pre)) \<Longrightarrow>
         scan re (pre @ tok @ suf) = scan re pre @ Inl tok # scan re suf"
proof (induction pre rule: length_induct)
  case (1 pre)
  show ?case
  proof (cases pre)
    case Nil
    have "scan re (tok @ suf) = Inl tok # scan re (drop (length tok) (tok @ suf))"
      using tok by (cases "tok @ suf") auto
    with Nil show ?thesis by simp
  next
    case (Cons c cs)
    have loc0: "re (c # cs @ tok @ suf) = re (c # cs)" using 1(2)[of 0] Cons by simp
    from scan_Cons_cases[of re c cs] show ?thesis
    proof
      assume a: "scan re (c # cs) = Inr c # scan re cs"
      have "re (c # cs) = None \<or> re (c # cs) = Some [] \<or> (\<exists>gs. re (c # cs) = Some ([] # gs))"
        using a by (auto split: option.splits list.splits if_splits)
      then have b: "scan re (c # cs @ tok @ suf) = Inr c # scan re (cs @ tok @ suf)"
        using loc0 by auto
      have "scan re (cs @ tok @ suf) = scan re cs @ Inl tok # scan re suf"
      proof (rule 1(1)[rule_format])
        show "length cs < length pre" using Cons by simp
        fix i assume "i < length cs"
        then show "re (drop i cs @ tok @ suf) = re (drop i cs)" using 1(2)[of "Suc i"] Cons by simp
      qed
      with a b Cons show ?thesis by simp
    next
      assume "\<exists>m gs. re (c # cs) = Some (m # gs) \<and> m \<noteq> [] \<and>
        scan re (c # cs) = Inl m # scan re (drop (length m) (c # cs))"
      then obtain m gs' where m: "re (c # cs) = Some (m # gs')" "m \<noteq> []"
        "scan re (c # cs) = Inl m # scan re (drop (length m) (c # cs))" by blast
      from pfx[OF m(1)] obtain rest where rest: "c # cs = m @ rest" by blast
      then have d1: "drop (length m) (c # cs) = rest" by (metis append_eq_conv_conj)
      have d2: "drop (length m) (c # cs @ tok @ suf) = rest @ tok @ suf"
        using rest by (metis append_Cons append_assoc append_eq_conv_conj)
      have b: "scan re (c # cs @ tok @ suf) = Inl m # scan re (rest @ tok @ suf)"
        using loc0 m(1,2) d2 by simp
      have "scan re (rest @ tok @ suf) = scan re rest @ Inl tok # scan re suf"
      proof (rule 1(1)[rule_format])
        have "length (c # cs) = length m + length rest" using rest by (metis length_append)
        then show "length rest < length pre" using m(2) Cons by simp
        fix i assume i: "i < length rest"
        have "drop i rest = drop (length m + i) pre" using d1 Cons by (metis add.commute drop_drop)
        moreover have "length m + i < length pre" using i rest Cons by (metis add_less_cancel_left length_append)
        ultimately show "re (drop i rest @ tok @ suf) = re (drop i rest)" using 1(2) by simp
      qed
      with b m(3) d1 Cons show ?thesis by simp
    qed
  qed
qed

lemma scan_iata_token:
  assumes "star = [] \<or> star = ''*''" "length code = 3" "list_all isUpper code"
    and "star = [] \<Longrightarrow> pre = [] \<or> last pre \<noteq> CHR ''*''"
  shows "scan iataRegex (pre @ (star @ ''#'' @ code) @ suf) =
         scan iataRegex pre @ Inl (star @ ''#'' @ code) # scan iataRegex suf"
proof (rule scan_token_between)
  show "\<exists>rest. t = m @ rest" if "iataRegex t = Some (m # gs)" for t m gs
    using that by (rule iataRegex_text)
  show "iataRegex ((star @ ''#'' @ code) @ suf) = Some ((star @ ''#'' @ code) # [star, code])"
    using iataRegex_self[OF assms(1-3), of suf] by simp
  show "star @ ''#'' @ code \<noteq> []" by simp
  fix i assume i: "i < length pre"
  then have ne: "drop i pre \<noteq> []" by simp
  have l: "last (drop i pre) = last pre" using i by simp
  from assms(1) show "iataRegex (drop i pre @ (star @ ''#'' @ code) @ suf) = iataRegex (drop i pre)"
  proof
    assume s: "star = []"
    with assms(4) i have "last pre \<noteq> CHR ''*''" by auto
    with iataRegex_local[OF ne, of "CHR ''#''" "code @ suf"] l s show ?thesis by simp
  next
    assume s: "star = ''*''"
    with iataRegex_local[OF ne, of "CHR ''*''" "''#'' @ code @ suf"] show ?thesis by simp
  qed
qed

lemma scan_icao_token:
  assumes "star = [] \<or> star = ''*''" "length code = 4" "list_all isUpper code"
    and "star = [] \<Longrightarrow> pre = [] \<or> last pre \<noteq> CHR ''*''"
  shows "scan icaoRegex (pre @ (star @ ''##'' @ code) @ suf) =
         scan icaoRegex pre @ Inl (star @ ''##'' @ code) # scan icaoRegex suf"
proof (rule scan_token_between)
  show "\<exists>rest. t = m @ rest" if "icaoRegex t = Some (m # gs)" for t m gs
    using that by (rule icaoRegex_text)
  show "icaoRegex ((star @ ''##'' @ code) @ suf) = Some ((star @ ''##'' @ code) # [star, code])"
    using icaoRegex_self[OF assms(1-3), of suf] by simp
  show "star @ ''##'' @ code \<noteq> []" by simp
  fix i assume i: "i < length pre"
  then have ne: "drop i pre \<noteq> []" by simp
  have l: "last (drop i pre) = last pre" using i by simp
  from assms(1) show "icaoRegex (drop i pre @ (star @ ''##'' @ code) @ suf) = icaoRegex (drop i pre)"
  proof
    assume s: "star = []"
    with assms(4) i have "last pre \<noteq> CHR ''*''" by auto
    with icaoRegex_local[OF ne, of "''##''" "code @ suf"] l s show ?thesis by simp
  next
    assume s: "star = ''*''"
    with icaoRegex_local[OF ne, of "''*##''" "code @ suf"] show ?thesis by simp
  qed
qed

lemma codeText_plain_airport:
  "codeText 1 city airport d (''#'' @ code) = (case d code of Some a \<Rightarrow> airport a | None \<Rightarrow> ''#'' @ code)"
  "codeText 2 city airport d (''##'' @ code) = (case d code of Some a \<Rightarrow> airport a | None \<Rightarrow> ''##'' @ code)"
  by (simp_all add: codeText_def optStar_def split: option.splits)

text \<open>
  C10.  The airport-code patterns check nothing before or after a match.  Wherever \<open>#\<close>
  and three capital letters stand in a text (not right after a star, which would belong
  to the token), the IATA pass replaces exactly these four characters by the name of the
  airport, or leaves them when the code is unknown, and treats the text before and the
  text after on their own; the same holds for \<open>##\<close> and four capital letters in the ICAO
  pass.  With \<open>ABC\<close> in the directory, \<open>#ABCD\<close> becomes the name followed by \<open>D\<close>.
\<close>

theorem airport_tokens_match_inside_longer_text:
  assumes "list_all isUpper code" and "pre = [] \<or> last pre \<noteq> CHR ''*''"
  shows "(length code = 3 \<longrightarrow>
            (\<exists>p q. plainIataPass d pre = Inr p \<and> plainIataPass d suf = Inr q \<and>
               plainIataPass d (pre @ ''#'' @ code @ suf) =
                 Inr (p @ (case d code of Some a \<Rightarrow> plainAirport a | None \<Rightarrow> ''#'' @ code) @ q))) \<and>
         (length code = 4 \<longrightarrow>
            (\<exists>p q. plainIcaoPass d pre = Inr p \<and> plainIcaoPass d suf = Inr q \<and>
               plainIcaoPass d (pre @ ''##'' @ code @ suf) =
                 Inr (p @ (case d code of Some a \<Rightarrow> plainAirport a | None \<Rightarrow> ''##'' @ code) @ q))) \<and>
         plainProcessAirportCodes directoryXY ''#ABCD'' = Inr ''XD''"
proof (intro conjI impI)
  assume l: "length code = 3"
  have sc: "scan iataRegex (pre @ ''#'' @ code @ suf) =
        scan iataRegex pre @ Inl (''#'' @ code) # scan iataRegex suf"
    using scan_iata_token[of "[]" code pre suf] assms l by simp
  show "\<exists>p q. plainIataPass d pre = Inr p \<and> plainIataPass d suf = Inr q \<and>
               plainIataPass d (pre @ ''#'' @ code @ suf) =
                 Inr (p @ (case d code of Some a \<Rightarrow> plainAirport a | None \<Rightarrow> ''#'' @ code) @ q)"
    unfolding plainIataPass_render sc render_append render_Inl codeText_plain_airport by simp
next
  assume l: "length code = 4"
  have sc: "scan icaoRegex (pre @ ''##'' @ code @ suf) =
        scan icaoRegex pre @ Inl (''##'' @ code) # scan icaoRegex suf"
    using scan_icao_token[of "[]" code pre suf] assms l by simp
  show "\<exists>p q. plainIcaoPass d pre = Inr p \<and> plainIcaoPass d suf = Inr q \<and>
               plainIcaoPass d (pre @ ''##'' @ code @ suf) =
                 Inr (p @ (case d code of Some a \<Rightarrow> plainAirport a | None \<Rightarrow> ''##'' @ code) @ q)"
    unfolding plainIcaoPass_render sc render_append render_Inl codeText_plain_airport by simp
next
  show "plainProcessAirportCodes directoryXY ''#ABCD'' = Inr ''XD''" by code_simp
qed

theorem airport_tokens_match_inside_longer_text_witness:
  "list_all isUpper ''ABC'' \<and> list_all isUpper ''ABCD'' \<and>
   plainIataPass directoryXY ''to#ABCD'' = Inr ''toXD'' \<and>
   plainIcaoPass directoryXY ''to##ABCDE'' = Inr ''toYE'' \<and>
   plainProcessAirportCodes directoryXY ''#ABCD'' = Inr ''XD''"
proof -
  have u: "list_all isUpper ''ABC''" "list_all isUpper ''ABCD''" by code_simp+
  have p: "''to'' = [] \<or> last ''to'' \<noteq> CHR ''*''" by simp
  have e: "plainIataPass directoryXY ''to'' = Inr ''to''" "plainIataPass directoryXY ''D'' = Inr ''D''"
    "plainIcaoPass directoryXY ''to'' = Inr ''to''" "plainIcaoPass directoryXY ''E'' = Inr ''E''"
    "directoryXY ''ABC'' = Some airportX" "directoryXY ''ABCD'' = Some airportY"
    "plainAirport airportX = ''X''" "plainAirport airportY = ''Y''"
    by code_simp+
  from airport_tokens_match_inside_longer_text[OF u(1) p, of directoryXY "''D''"]
    airport_tokens_match_inside_longer_text[OF u(2) p, of directoryXY "''E''"]
  show ?thesis using u e by simp
qed

section \<open>A date or time token inside a longer text\<close>

lemma not_class: "\<not> tsClass (CHR '')'')" "\<not> tsClass (CHR ''('')" "\<not> tsClass (CHR ''D'')"
  "tsClass (CHR ''T'')" "tsClass (CHR ''1'')" "tsClass (CHR ''2'')" "tsClass (CHR ''4'')"
  by (simp_all add: tsClass_def)

lemma tokenRegex_self:
  assumes "16 \<le> length inner" "list_all tsClass inner"
  shows "tokenRegex lit (lit @ inner @ '')'' @ suf) = Some [lit @ inner @ '')'', inner]"
proof -
  have a: "\<And>c. c \<in> set inner \<Longrightarrow> tsClass c" using assms(2) by (simp add: list_all_iff)
  have t: "takeWhile tsClass (inner @ CHR '')'' # suf) = inner"
    using a by (simp add: takeWhile_append2 not_class)
  have d: "dropWhile tsClass (inner @ CHR '')'' # suf) = CHR '')'' # suf"
    using a by (simp add: dropWhile_append2 not_class)
  show ?thesis using assms(1) by (simp add: tokenRegex_def Let_def t d)
qed

lemma tokenRegex_long:
  assumes "length lit \<le> length x" "dropWhile tsClass z \<noteq> []" "take 1 (dropWhile tsClass z) \<noteq> '')''"
  shows "tokenRegex lit (x @ z) = tokenRegex lit x"
proof -
  define r where "r = drop (length lit) x"
  have tk: "take (length lit) (x @ z) = take (length lit) x" using assms(1) by simp
  have dr: "drop (length lit) (x @ z) = r @ z" using assms(1) by (simp add: r_def)
  show ?thesis
  proof (cases "\<forall>c\<in>set r. tsClass c")
    case True
    then have t: "takeWhile tsClass (r @ z) = r @ takeWhile tsClass z"
      and d: "dropWhile tsClass (r @ z) = dropWhile tsClass z"
      and t0: "takeWhile tsClass r = r" and d0: "dropWhile tsClass r = []"
      by (simp_all add: takeWhile_append2 dropWhile_append2)
    have "tokenRegex lit (x @ z) = None"
      unfolding tokenRegex_def Let_def tk dr t d using assms(3) by simp
    moreover have "tokenRegex lit x = None"
      unfolding tokenRegex_def Let_def r_def[symmetric] t0 d0 by simp
    ultimately show ?thesis by simp
  next
    case False
    then obtain c where c: "c \<in> set r" "\<not> tsClass c" by blast
    then have t: "takeWhile tsClass (r @ z) = takeWhile tsClass r"
      and d: "dropWhile tsClass (r @ z) = dropWhile tsClass r @ z"
      by (simp_all add: takeWhile_append1 dropWhile_append1)
    have ne: "dropWhile tsClass r \<noteq> []" using c by (auto simp: dropWhile_eq_Nil_conv)
    then have e: "take 1 (dropWhile tsClass r @ z) = take 1 (dropWhile tsClass r)"
      by (cases "dropWhile tsClass r") auto
    show ?thesis unfolding tokenRegex_def Let_def tk dr t d r_def[symmetric] e ..
  qed
qed

lemma tokenRegex_short:
  assumes "lit \<in> {''D('', ''T12('', ''T24(''}" "x \<noteq> []" "length x < length lit"
  shows "tokenRegex lit (x @ lit @ y) = None" and "tokenRegex lit x = None"
proof -
  show "tokenRegex lit x = None" using assms(3) by (simp add: tokenRegex_def Let_def)
  from assms(1) consider "lit = ''D(''" | "lit = ''T12(''" | "lit = ''T24(''" by blast
  then show "tokenRegex lit (x @ lit @ y) = None"
  proof cases
    case 1
    with assms(2,3) obtain a where "x = [a]" by (cases x rule: list_upto5) auto
    with 1 show ?thesis by (simp add: tokenRegex_def Let_def)
  next
    case 2
    with assms(2,3) consider a where "x = [a]" | a b where "x = [a, b]" | a b c where "x = [a, b, c]"
      by (cases x rule: list_upto5) auto
    then show ?thesis using 2 by cases (auto simp: tokenRegex_def Let_def)
  next
    case 3
    with assms(2,3) consider a where "x = [a]" | a b where "x = [a, b]" | a b c where "x = [a, b, c]"
      by (cases x rule: list_upto5) auto
    then show ?thesis using 3 by cases (auto simp: tokenRegex_def Let_def)
  qed
qed

lemma tokenRegex_local:
  assumes "lit \<in> {''D('', ''T12('', ''T24(''}" "x \<noteq> []"
  shows "tokenRegex lit (x @ lit @ y) = tokenRegex lit x"
proof (cases "length lit \<le> length x")
  case True
  from assms(1) have "dropWhile tsClass (lit @ y) \<noteq> [] \<and> take 1 (dropWhile tsClass (lit @ y)) \<noteq> '')''"
    by (auto simp: not_class)
  with True show ?thesis by (intro tokenRegex_long) auto
next
  case False
  then have "length x < length lit" by simp
  from tokenRegex_short(1)[OF assms this, of y] tokenRegex_short(2)[OF assms this]
  show ?thesis by simp
qed

lemma scan_stamp_token:
  assumes "lit \<in> {''D('', ''T12('', ''T24(''}" "16 \<le> length inner" "list_all tsClass inner"
  shows "scan (tokenRegex lit) (pre @ (lit @ inner @ '')'') @ suf) =
         scan (tokenRegex lit) pre @ Inl (lit @ inner @ '')'') # scan (tokenRegex lit) suf"
proof (rule scan_token_between)
  show "\<exists>rest. t = m @ rest" if "tokenRegex lit t = Some (m # gs)" for t m gs
    using that by (rule tokenRegex_text)
  show "tokenRegex lit ((lit @ inner @ '')'') @ suf) = Some ((lit @ inner @ '')'') # [inner])"
    using tokenRegex_self[OF assms(2,3), of lit suf] by simp
  show "lit @ inner @ '')'' \<noteq> []" by simp
  fix i assume "i < length pre"
  then have "drop i pre \<noteq> []" by simp
  from tokenRegex_local[OF assms(1) this, of "inner @ '')'' @ suf"]
  show "tokenRegex lit (drop i pre @ (lit @ inner @ '')'') @ suf) = tokenRegex lit (drop i pre)"
    by simp
qed

lemma stampText_token:
  "stampText (length lit) rend (lit @ inner @ '')'') =
   (case parseTimestamp inner of Some t \<Rightarrow> rend t | None \<Rightarrow> lit @ inner @ '')'')"
  by (simp add: stampText_def)

lemma stampPass_token:
  assumes "lit \<in> {''D('', ''T12('', ''T24(''}" "16 \<le> length inner" "list_all tsClass inner"
    and "n = length lit"
  shows "render (stampText n rend) (scan (tokenRegex lit) (pre @ lit @ inner @ '')'' @ suf)) =
         render (stampText n rend) (scan (tokenRegex lit) pre) @
         (case parseTimestamp inner of Some t \<Rightarrow> rend t | None \<Rightarrow> lit @ inner @ '')'') @
         render (stampText n rend) (scan (tokenRegex lit) suf)"
  using scan_stamp_token[OF assms(1-3), of pre suf] stampText_token[of lit rend inner] assms(4)
  by (simp add: render_append render_Inl)

lemma digit_class: "isDigitChar c \<Longrightarrow> tsClass c"
  by (auto simp: isDigitChar_def tsClass_def)

lemma getnum_shape:
  assumes "getnum s fixed = Some (n, r)"
  shows "\<exists>p. s = p @ r \<and> 1 \<le> length p \<and> list_all tsClass p \<and> (fixed \<longrightarrow> length p = 2)"
proof (cases "isDigit s 1")
  case True
  with assms have d: "isDigit s 0" "r = drop 2 s" by (auto simp: getnum_def split: if_splits)
  from True d(1) have "length (take 2 s) = 2" "list_all tsClass (take 2 s)"
    by (auto simp: isDigit_def list_all_length digit_class less_Suc_eq numeral_2_eq_2)
  moreover have "s = take 2 s @ r" using d(2) by simp
  ultimately show ?thesis by (intro exI[of _ "take 2 s"]) simp
next
  case False
  with assms have d: "isDigit s 0" "r = drop 1 s" "\<not> fixed" by (auto simp: getnum_def split: if_splits)
  from d(1) obtain c cs where "s = c # cs" "isDigitChar c" by (cases s) (auto simp: isDigit_def)
  then have "length (take 1 s) = 1" "list_all tsClass (take 1 s)"
    by (auto simp: digit_class)
  moreover have "s = take 1 s @ r" using d(2) by simp
  ultimately show ?thesis using d(3) by (intro exI[of _ "take 1 s"]) simp
qed

lemma skip_shape: "skip v c = Some r \<Longrightarrow> v = c # r"
  by (auto simp: skip_def split: list.splits if_splits)

lemma atoi_digits: "atoi s = Some y \<Longrightarrow> list_all tsClass s"
  by (auto simp: atoi_def list_all_iff digit_class split: if_splits)

lemma parseDateTime_shape:
  assumes "parseDateTime v = Some (t, r)"
  shows "\<exists>p. v = p @ r \<and> 15 \<le> length p \<and> list_all tsClass p"
proof -
  from assms obtain y v1 mo v2 v3 d v4 v5 h v6 v7 mi where
    l: "4 \<le> length v" and y: "atoi (take 4 v) = Some y"
    and s1: "skip (drop 4 v) (CHR ''-'') = Some v1" and g1: "getnum v1 True = Some (mo, v2)"
    and s2: "skip v2 (CHR ''-'') = Some v3" and g2: "getnum v3 True = Some (d, v4)"
    and s3: "skip v4 (CHR ''T'') = Some v5" and g3: "getnum v5 False = Some (h, v6)"
    and s4: "skip v6 (CHR '':'') = Some v7" and g4: "getnum v7 True = Some (mi, r)"
    by (auto simp: parseDateTime_def split: if_splits option.splits prod.splits)
  from getnum_shape[OF g1] obtain p1 where p1: "v1 = p1 @ v2" "length p1 = 2" "list_all tsClass p1" by auto
  from getnum_shape[OF g2] obtain p2 where p2: "v3 = p2 @ v4" "length p2 = 2" "list_all tsClass p2" by auto
  from getnum_shape[OF g3] obtain p3 where p3: "v5 = p3 @ v6" "1 \<le> length p3" "list_all tsClass p3" by auto
  from getnum_shape[OF g4] obtain p4 where p4: "v7 = p4 @ r" "length p4 = 2" "list_all tsClass p4" by auto
  define p where "p = take 4 v @ ''-'' @ p1 @ ''-'' @ p2 @ ''T'' @ p3 @ '':'' @ p4"
  have "v = take 4 v @ drop 4 v" by simp
  also have "drop 4 v = CHR ''-'' # v1" using s1 by (rule skip_shape)
  also have "v1 = p1 @ CHR ''-'' # v3" using p1(1) skip_shape[OF s2] by simp
  also have "v3 = p2 @ CHR ''T'' # v5" using p2(1) skip_shape[OF s3] by simp
  also have "v5 = p3 @ CHR '':'' # v7" using p3(1) skip_shape[OF s4] by simp
  also have "v7 = p4 @ r" by (rule p4(1))
  finally have "v = p @ r" by (simp add: p_def)
  moreover have "15 \<le> length p" using l p1(2) p2(2) p3(2) p4(2) by (simp add: p_def)
  moreover have "list_all tsClass p"
    using atoi_digits[OF y] p1(3) p2(3) p3(3) p4(3) by (simp add: p_def tsClass_def)
  ultimately show ?thesis by blast
qed

lemma parseLayoutZ_shape:
  assumes "parseLayoutZ inner = Some t"
  shows "16 \<le> length inner" and "list_all tsClass inner"
proof -
  from assms obtain t0 v1 where a: "parseDateTime inner = Some (t0, v1)" "skip v1 (CHR ''Z'') = Some []"
    by (auto simp: parseLayoutZ_def split: option.splits prod.splits if_splits)
  from parseDateTime_shape[OF a(1)] obtain p where p: "inner = p @ v1" "15 \<le> length p" "list_all tsClass p"
    by blast
  from skip_shape[OF a(2)] have "v1 = ''Z''" .
  with p show "16 \<le> length inner" and "list_all tsClass inner" by (simp_all add: tsClass_def)
qed

lemma stamp_literals:
  "''D('' \<in> {''D('', ''T12('', ''T24(''}" "''T12('' \<in> {''D('', ''T12('', ''T24(''}"
  "''T24('' \<in> {''D('', ''T12('', ''T24(''}"
  by simp_all


lemma time12Pass_token:
  assumes "16 \<le> length inner" "list_all tsClass inner"
  shows "render (stampText 4 rend) (scan time12Regex (pre @ ''T12('' @ inner @ '')'' @ suf)) =
         render (stampText 4 rend) (scan time12Regex pre) @
         (case parseTimestamp inner of Some t \<Rightarrow> rend t | None \<Rightarrow> ''T12('' @ inner @ '')'') @
         render (stampText 4 rend) (scan time12Regex suf)"
  unfolding time12Regex_def using stampPass_token[OF stamp_literals(2) assms, of 4 rend pre suf] by simp

lemma time24Pass_token:
  assumes "16 \<le> length inner" "list_all tsClass inner"
  shows "render (stampText 4 rend) (scan time24Regex (pre @ ''T24('' @ inner @ '')'' @ suf)) =
         render (stampText 4 rend) (scan time24Regex pre) @
         (case parseTimestamp inner of Some t \<Rightarrow> rend t | None \<Rightarrow> ''T24('' @ inner @ '')'') @
         render (stampText 4 rend) (scan time24Regex suf)"
  unfolding time24Regex_def using stampPass_token[OF stamp_literals(3) assms, of 4 rend pre suf] by simp

section \<open>Times in UTC\<close>

text \<open>
  C9.  Wherever a \<open>T12\<close> or \<open>T24\<close> token stands whose inner text parses under the layout
  with the literal \<open>Z\<close>, the pass of its kind replaces it by the clock time and the
  offset \<open>(+00:00)\<close>, in the plain and in the highlighted mode, and treats the text before
  and the text after on their own; the plain rendering of \<open>T24(2025-03-16T06:30Z)\<close> is
  \<open>06:30 (+00:00)\<close>, whatever the directory.
\<close>

theorem utc_offset_rendered_as_zero:
  assumes "parseLayoutZ inner = Some t"
  shows "(\<exists>p q. plainTime12Pass pre = Inr p \<and> plainTime12Pass suf = Inr q \<and>
            plainTime12Pass (pre @ ''T12('' @ inner @ '')'' @ suf) =
              Inr (p @ formatKitchen t @ '' (+00:00)'' @ q)) \<and>
         (\<exists>p q. plainTime24Pass pre = Inr p \<and> plainTime24Pass suf = Inr q \<and>
            plainTime24Pass (pre @ ''T24('' @ inner @ '')'' @ suf) =
              Inr (p @ formatClock t @ '' (+00:00)'' @ q)) \<and>
         (\<exists>p q. highlightTime12Pass pre = Inr p \<and> highlightTime12Pass suf = Inr q \<and>
            highlightTime12Pass (pre @ ''T12('' @ inner @ '')'' @ suf) =
              Inr (p @ ColorCyan @ formatKitchen t @ ColorReset @ '' '' @
                   ColorYellow @ ''(+00:00)'' @ ColorReset @ q)) \<and>
         (\<exists>p q. highlightTime24Pass pre = Inr p \<and> highlightTime24Pass suf = Inr q \<and>
            highlightTime24Pass (pre @ ''T24('' @ inner @ '')'' @ suf) =
              Inr (p @ ColorCyan @ formatClock t @ ColorReset @ '' '' @
                   ColorYellow @ ''(+00:00)'' @ ColorReset @ q)) \<and>
         plainProcessContent d ''T24(2025-03-16T06:30Z)'' = Inr ''06:30 (+00:00)''"
proof -
  note tok = parseLayoutZ_shape[OF assms]
  have p: "parseTimestamp inner = Some t" using assms by (rule parseTimestamp_Z)
  have z: "zoneText t = ''(+00:00)''" using assms by (intro zoneText_utc parseLayoutZ_zone)
  have "plainProcessAirportCodes d ''T24(2025-03-16T06:30Z)'' = Inr ''T24(2025-03-16T06:30Z)''"
    by (rule plainProcessAirportCodes_no_hash) simp
  moreover have "plainProcessDatesAndTimes ''T24(2025-03-16T06:30Z)'' = Inr ''06:30 (+00:00)''"
    by code_simp
  moreover have "trimVerticalWhitespace (trimHorizontalWhitespace ''06:30 (+00:00)'') = ''06:30 (+00:00)''"
    by code_simp
  ultimately have c: "plainProcessContent d ''T24(2025-03-16T06:30Z)'' = Inr ''06:30 (+00:00)''"
    by (simp add: plainProcessContent_def)
  show ?thesis
    unfolding plainTime12Pass_render plainTime24Pass_render highlightTime12Pass_render
      highlightTime24Pass_render time12Pass_token[OF tok] time24Pass_token[OF tok] p
    using z c
    by (simp add: plainTime12_def plainTime24_def highlightTime12_def highlightTime24_def)
qed

theorem utc_offset_rendered_as_zero_witness:
  "parseLayoutZ ''2025-03-16T18:05Z'' =
     Some \<lparr>year = 2025, month = 3, day = 16, hour = 18, minute = 5, zoneOffset = 0\<rparr> \<and>
   plainTime12Pass ''at T12(2025-03-16T18:05Z).'' = Inr ''at 06:05PM (+00:00).'' \<and>
   plainTime24Pass ''at T24(2025-03-16T18:05Z).'' = Inr ''at 18:05 (+00:00).'' \<and>
   highlightTime12Pass ''at T12(2025-03-16T18:05Z).'' =
     Inr (''at '' @ ColorCyan @ ''06:05PM'' @ ColorReset @ '' '' @ ColorYellow @ ''(+00:00)'' @
          ColorReset @ ''.'') \<and>
   highlightTime24Pass ''at T24(2025-03-16T18:05Z).'' =
     Inr (''at '' @ ColorCyan @ ''18:05'' @ ColorReset @ '' '' @ ColorYellow @ ''(+00:00)'' @
          ColorReset @ ''.'') \<and>
   plainProcessContent Map.empty ''T24(2025-03-16T06:30Z)'' = Inr ''06:30 (+00:00)''"
proof -
  have p: "parseLayoutZ ''2025-03-16T18:05Z'' =
     Some \<lparr>year = 2025, month = 3, day = 16, hour = 18, minute = 5, zoneOffset = 0\<rparr>"
    by code_simp
  have k: "formatKitchen \<lparr>year = 2025, month = 3, day = 16, hour = 18, minute = 5, zoneOffset = 0\<rparr> = ''06:05PM''"
    "formatClock \<lparr>year = 2025, month = 3, day = 16, hour = 18, minute = 5, zoneOffset = 0\<rparr> = ''18:05''"
    by code_simp+
  have e: "plainTime12Pass ''at '' = Inr ''at ''" "plainTime12Pass ''.'' = Inr ''.''"
    "plainTime24Pass ''at '' = Inr ''at ''" "plainTime24Pass ''.'' = Inr ''.''"
    "highlightTime12Pass ''at '' = Inr ''at ''" "highlightTime12Pass ''.'' = Inr ''.''"
    "highlightTime24Pass ''at '' = Inr ''at ''" "highlightTime24Pass ''.'' = Inr ''.''"
    by code_simp+
  from utc_offset_rendered_as_zero[OF p, of "''at ''" "''.''" Map.empty] p
  show ?thesis unfolding e k by simp
qed

section \<open>Tokens that do not resolve\<close>





section \<open>An ICAO token read by the IATA pass\<close>

text \<open>
  C2.  The IATA pass runs first and its pattern matches the second \<open>#\<close> of an ICAO token
  with the three letters after it.  With \<open>ABC\<close> and \<open>ABCD\<close> both in the directory, the
  ICAO pass alone turns \<open>##ABCD\<close> into the name of \<open>ABCD\<close>, but the two passes in the
  order of the program turn it into \<open>#\<close>, the name of \<open>ABC\<close>, and \<open>D\<close>.
\<close>

theorem icao_token_read_by_iata_pass:
  "directoryXY ''ABC'' = Some airportX \<and> directoryXY ''ABCD'' = Some airportY \<and>
   plainIcaoPass directoryXY ''##ABCD'' = Inr ''Y'' \<and>
   plainProcessAirportCodes directoryXY ''##ABCD'' = Inr ''#XD'' \<and>
   plainProcessContent directoryXY ''##ABCD'' = Inr ''#XD'' \<and>
   highlightProcessContent directoryXY ''##ABCD'' = Inr (''#'' @ ColorGreen @ ''X'' @ ColorReset @ ''D'')"
  by code_simp

section \<open>Facts about loading the directory\<close>

lemma columnMap_fold:
  fixes keyf :: "string \<Rightarrow> string"
  defines "step \<equiv> (\<lambda>cm (i, column). cm(keyf column \<mapsto> i))"
  shows "(foldl step m0 ps key = None) = (m0 key = None \<and> key \<notin> keyf ` snd ` set ps)"
    and "foldl step m0 ps key = Some i \<Longrightarrow> m0 key = Some i \<or> i \<in> fst ` set ps"
proof (induction ps arbitrary: m0)
  case Nil
  { case 1 show ?case by simp }
  { case 2 then show ?case by simp }
next
  case (Cons p ps)
  obtain j x where p: "p = (j, x)" by (cases p)
  have st: "foldl step m (p # ps) key = foldl step (m(keyf x \<mapsto> j)) ps key" for m
    by (simp add: step_def p)
  { case 1
    have "(foldl step m0 (p # ps) key = None) =
          ((m0(keyf x \<mapsto> j)) key = None \<and> key \<notin> keyf ` snd ` set ps)"
      unfolding st by (rule Cons(1))
    also have "\<dots> = (m0 key = None \<and> key \<notin> keyf ` snd ` set (p # ps))"
      by (auto simp: p)
    finally show ?case . }
  { case 2
    then have "foldl step (m0(keyf x \<mapsto> j)) ps key = Some i" unfolding st .
    from Cons(2)[OF this] show ?case by (auto simp: p split: if_splits) }
qed

lemma columnMapOf_None: "(columnMapOf header key = None) = (\<not> hasColumn header key)"
proof -
  have "snd ` set (zip [0..<length header] header) = set header"
    by (metis length_upt diff_zero map_snd_zip set_map)
  then show ?thesis
    using columnMap_fold(1)[of "\<lambda>column. trimSpace (toLower column)" Map.empty
        "zip [0..<length header] header" key]
    by (simp add: columnMapOf_def hasColumn_def image_image)
qed

lemma columnMapOf_bound: "columnMapOf header key = Some i \<Longrightarrow> i < length header"
proof -
  assume "columnMapOf header key = Some i"
  then have "i \<in> fst ` set (zip [0..<length header] header)"
    using columnMap_fold(2)[of "\<lambda>column. trimSpace (toLower column)" Map.empty
        "zip [0..<length header] header" key i]
    by (simp add: columnMapOf_def)
  then have "i \<in> set [0..<length header]" by (auto dest: set_zip_leftD)
  then show ?thesis by simp
qed

lemma find_required:
  "(find (\<lambda>req. columnMapOf header req = None) requiredColumns = None) =
   list_all (hasColumn header) requiredColumns"
  by (auto simp: find_None_iff list_all_iff columnMapOf_None)

lemma field_cell:
  assumes "\<forall>key i. cm key = Some i \<longrightarrow> i < n" "length record = n" "record \<noteq> []"
  shows "field cm record key = Inr (cell cm record key)"
proof (cases "cm key")
  case None
  with assms(3) show ?thesis by (simp add: field_def cell_def index_def)
next
  case (Some i)
  with assms(1)[rule_format, OF Some] assms(2) show ?thesis by (simp add: field_def cell_def index_def)
qed

lemma loadRecords_Nil: "loadRecords cm n [] w = Inr (None, w)"
  by simp

lemma loadRecords_skip: "loadRecords cm n ([] # rest) w = loadRecords cm n rest w"
  by simp

lemma loadRecords_reject:
  assumes "\<forall>key i. cm key = Some i \<longrightarrow> i < n" "rowError cm n record = Some e"
  shows "loadRecords cm n (record # rest) w = Inr (Some e, w)"
proof -
  from assms(2) have ne: "record \<noteq> []" by (auto simp: rowError_def split: if_splits)
  show ?thesis
  proof (cases "length record = n")
    case False
    with assms(2) ne show ?thesis by (auto simp: rowError_def split: if_splits)
  next
    case True
    note f = field_cell[OF assms(1) True ne]
    from assms(2) ne True show ?thesis
      by (auto simp: rowError_def f split: if_splits)
  qed
qed

lemma loadRecords_insert:
  assumes "\<forall>key i. cm key = Some i \<longrightarrow> i < n" "rowError cm n record = None" "record \<noteq> []"
  shows "loadRecords cm n (record # rest) w =
         loadRecords cm n rest
           \<lparr>airports =
              (let airport = Ptr (allocated w) (airportOf cm record);
                   m1 = (if cell cm record ''iata_code'' \<noteq> []
                         then (airports w)(cell cm record ''iata_code'' \<mapsto> airport) else airports w)
               in if cell cm record ''icao_code'' \<noteq> [] then m1(cell cm record ''icao_code'' \<mapsto> airport) else m1),
            allocated = allocated w + 1\<rparr>"
proof -
  from assms(2,3) have len: "length record = n" by (auto simp: rowError_def split: if_splits)
  note f = field_cell[OF assms(1) len assms(3)]
  from assms(2,3) len have
    "trimSpace (cell cm record ''name'') \<noteq> []"
    "\<not> (trimSpace (cell cm record ''iata_code'') = [] \<and> trimSpace (cell cm record ''icao_code'') = [])"
    by (auto simp: rowError_def split: if_splits)
  with assms(3) len show ?thesis
    by (auto simp: f Let_def airportOf_def)
qed

lemma loadRecords_step:
  assumes "\<forall>key i. cm key = Some i \<longrightarrow> i < n" "rowError cm n row = None"
  shows "\<exists>w1. allocated w \<le> allocated w1 \<and>
           (\<forall>rest. loadRecords cm n (row # rest) w = loadRecords cm n rest w1) \<and>
           (\<forall>code. (row = [] \<or> (cell cm row ''iata_code'' \<noteq> code \<and> cell cm row ''icao_code'' \<noteq> code))
               \<longrightarrow> airports w1 code = airports w code) \<and>
           (row \<noteq> [] \<longrightarrow>
              (cell cm row ''icao_code'' \<noteq> [] \<longrightarrow>
                 airports w1 (cell cm row ''icao_code'') = Some (Ptr (allocated w) (airportOf cm row))) \<and>
              (cell cm row ''iata_code'' \<noteq> [] \<longrightarrow>
                 airports w1 (cell cm row ''iata_code'') = Some (Ptr (allocated w) (airportOf cm row))))"
proof (cases "row = []")
  case True
  then show ?thesis by (intro exI[of _ w]) simp
next
  case False
  define p where "p = Ptr (allocated w) (airportOf cm row)"
  define m1 where "m1 = (if cell cm row ''iata_code'' \<noteq> []
                         then (airports w)(cell cm row ''iata_code'' \<mapsto> p) else airports w)"
  define m2 where "m2 = (if cell cm row ''icao_code'' \<noteq> [] then m1(cell cm row ''icao_code'' \<mapsto> p) else m1)"
  define w1 where "w1 = \<lparr>airports = m2, allocated = allocated w + 1\<rparr>"
  have step: "loadRecords cm n (row # rest) w = loadRecords cm n rest w1" for rest
    using loadRecords_insert[OF assms False, of rest w]
    by (simp add: w1_def m2_def m1_def p_def Let_def)
  have a: "allocated w \<le> allocated w1" by (simp add: w1_def)
  have f: "airports w1 code = airports w code"
    if "cell cm row ''iata_code'' \<noteq> code" "cell cm row ''icao_code'' \<noteq> code" for code
    using that by (simp add: w1_def m2_def m1_def)
  have i1: "airports w1 (cell cm row ''icao_code'') = Some p" if "cell cm row ''icao_code'' \<noteq> []"
    using that by (simp add: w1_def m2_def)
  have i2: "airports w1 (cell cm row ''iata_code'') = Some p" if "cell cm row ''iata_code'' \<noteq> []"
    using that by (simp add: w1_def m2_def m1_def)
  show ?thesis
    using step a f i1 i2 False unfolding p_def by (intro exI[of _ w1]) blast
qed



lemma loadRecords_frame:
  assumes "\<forall>key i. cm key = Some i \<longrightarrow> i < n"
  shows "loadRecords cm n records w = Inr (None, w') \<Longrightarrow>
         \<forall>r\<in>set records. r = [] \<or> (cell cm r ''iata_code'' \<noteq> code \<and> cell cm r ''icao_code'' \<noteq> code) \<Longrightarrow>
         airports w' code = airports w code"
proof (induction records arbitrary: w)
  case Nil
  then show ?case by simp
next
  case (Cons row rest)
  show ?case
  proof (cases "rowError cm n row")
    case None
    from loadRecords_step[OF assms None, where w = w] obtain w1 where
      w1: "\<And>rest. loadRecords cm n (row # rest) w = loadRecords cm n rest w1"
      and fr: "\<And>code. row = [] \<or> (cell cm row ''iata_code'' \<noteq> code \<and> cell cm row ''icao_code'' \<noteq> code)
               \<Longrightarrow> airports w1 code = airports w code" by blast
    from Cons.prems(1) w1 have "loadRecords cm n rest w1 = Inr (None, w')" by simp
    from Cons.IH[OF this] Cons.prems(2) have "airports w' code = airports w1 code" by simp
    with fr[of code] Cons.prems(2) show ?thesis by simp
  next
    case (Some e')
    from loadRecords_reject[OF assms Some, where rest = rest and w = w] Cons.prems show ?thesis by simp
  qed
qed

lemma loadRecords_lookup:
  assumes "\<forall>key i. cm key = Some i \<longrightarrow> i < n"
  shows "loadRecords cm n records w = Inr (None, w') \<Longrightarrow> k < length records \<Longrightarrow>
         records ! k \<noteq> [] \<Longrightarrow>
         cell cm (records ! k) ''iata_code'' \<noteq> [] \<Longrightarrow> cell cm (records ! k) ''icao_code'' \<noteq> [] \<Longrightarrow>
         \<forall>j. k < j \<and> j < length records \<and> records ! j \<noteq> [] \<longrightarrow>
           cell cm (records ! j) ''iata_code'' \<notin> {cell cm (records ! k) ''iata_code'', cell cm (records ! k) ''icao_code''} \<and>
           cell cm (records ! j) ''icao_code'' \<notin> {cell cm (records ! k) ''iata_code'', cell cm (records ! k) ''icao_code''} \<Longrightarrow>
         \<exists>a. airports w' (cell cm (records ! k) ''iata_code'') = Some (Ptr a (airportOf cm (records ! k))) \<and>
             airports w' (cell cm (records ! k) ''icao_code'') = Some (Ptr a (airportOf cm (records ! k)))"
proof (induction records arbitrary: w k)
  case Nil
  then show ?case by simp
next
  case (Cons row rest)
  show ?case
  proof (cases "rowError cm n row")
    case (Some e')
    from loadRecords_reject[OF assms Some, where rest = rest and w = w] Cons.prems(1) show ?thesis by simp
  next
    case None
    from loadRecords_step[OF assms None, where w = w] obtain w1 where
      w1: "\<And>rest. loadRecords cm n (row # rest) w = loadRecords cm n rest w1"
      and ins: "row \<noteq> [] \<Longrightarrow> cell cm row ''icao_code'' \<noteq> [] \<Longrightarrow>
                 airports w1 (cell cm row ''icao_code'') = Some (Ptr (allocated w) (airportOf cm row))"
               "row \<noteq> [] \<Longrightarrow> cell cm row ''iata_code'' \<noteq> [] \<Longrightarrow>
                 airports w1 (cell cm row ''iata_code'') = Some (Ptr (allocated w) (airportOf cm row))"
      by blast
    from Cons.prems(1) w1 have rest: "loadRecords cm n rest w1 = Inr (None, w')" by simp
    show ?thesis
    proof (cases k)
      case 0
      with Cons.prems have r: "row \<noteq> []" "cell cm row ''iata_code'' \<noteq> []"
        "cell cm row ''icao_code'' \<noteq> []" by simp_all
      have later: "\<forall>r\<in>set rest. r = [] \<or>
          (cell cm r ''iata_code'' \<notin> {cell cm row ''iata_code'', cell cm row ''icao_code''} \<and>
           cell cm r ''icao_code'' \<notin> {cell cm row ''iata_code'', cell cm row ''icao_code''})"
      proof
        fix r assume "r \<in> set rest"
        then obtain j where j: "j < length rest" "rest ! j = r" by (auto simp: in_set_conv_nth)
        with Cons.prems(6)[rule_format, of "Suc j"] 0 show "r = [] \<or>
          (cell cm r ''iata_code'' \<notin> {cell cm row ''iata_code'', cell cm row ''icao_code''} \<and>
           cell cm r ''icao_code'' \<notin> {cell cm row ''iata_code'', cell cm row ''icao_code''})"
          by auto
      qed
      have "airports w' (cell cm row ''iata_code'') = airports w1 (cell cm row ''iata_code'')"
        by (rule loadRecords_frame[OF assms rest]) (use later in auto)
      moreover have "airports w' (cell cm row ''icao_code'') = airports w1 (cell cm row ''icao_code'')"
        by (rule loadRecords_frame[OF assms rest]) (use later in auto)
      ultimately show ?thesis using ins r 0 by simp
    next
      case (Suc k')
      have "\<exists>a. airports w' (cell cm (rest ! k') ''iata_code'') = Some (Ptr a (airportOf cm (rest ! k'))) \<and>
             airports w' (cell cm (rest ! k') ''icao_code'') = Some (Ptr a (airportOf cm (rest ! k')))"
      proof (rule Cons.IH[OF rest])
        show "k' < length rest" using Cons.prems(2) Suc by simp
        show "rest ! k' \<noteq> []" "cell cm (rest ! k') ''iata_code'' \<noteq> []"
          "cell cm (rest ! k') ''icao_code'' \<noteq> []" using Cons.prems(3-5) Suc by simp_all
        show "\<forall>j. k' < j \<and> j < length rest \<and> rest ! j \<noteq> [] \<longrightarrow>
           cell cm (rest ! j) ''iata_code'' \<notin> {cell cm (rest ! k') ''iata_code'', cell cm (rest ! k') ''icao_code''} \<and>
           cell cm (rest ! j) ''icao_code'' \<notin> {cell cm (rest ! k') ''iata_code'', cell cm (rest ! k') ''icao_code''}"
        proof (intro allI impI)
          fix j assume "k' < j \<and> j < length rest \<and> rest ! j \<noteq> []"
          with Cons.prems(6)[rule_format, of "Suc j"] Suc show
            "cell cm (rest ! j) ''iata_code'' \<notin> {cell cm (rest ! k') ''iata_code'', cell cm (rest ! k') ''icao_code''} \<and>
             cell cm (rest ! j) ''icao_code'' \<notin> {cell cm (rest ! k') ''iata_code'', cell cm (rest ! k') ''icao_code''}"
            by simp
        qed
      qed
      with Suc show ?thesis by simp
    qed
  qed
qed



lemma columnMapOf_bounded: "\<forall>key i. columnMapOf header key = Some i \<longrightarrow> i < length header"
  using columnMapOf_bound by blast

lemma loadAirportData_schema:
  assumes "\<not> list_all (hasColumn header) requiredColumns"
  shows "\<exists>req. loadAirportData (Some header) records w = Inr (Some (MissingColumn req), w)"
proof -
  from assms find_required[of header]
  obtain req where "find (\<lambda>req. columnMapOf header req = None) requiredColumns = Some req"
    by auto
  then show ?thesis by (simp add: loadAirportData_def)
qed

lemma loadAirportData_records:
  assumes "list_all (hasColumn header) requiredColumns"
  shows "loadAirportData (Some header) (Some records) w =
         loadRecords (columnMapOf header) (length header) records (w\<lparr>airports := Map.empty\<rparr>)"
  using assms find_required[of header] by (simp add: loadAirportData_def)

lemmas exampleData_defs =
  requiredColumns_def columnMapOf_def toLower_def trimSpace_def isSpace_def TAB_def NL_def VT_def
  FF_def CR_def rowA_def rowB_def rowC_def rowNoName_def world0_def worldA_def worldAB_def worldAC_def
  airportA_def airportB_def airportC_def field_def index_def Let_def



lemma load_example_AB:
  "loadAirportData (Some requiredColumns) (Some [rowA, rowB]) world0 = Inr (None, worldAB)"
  by (simp add: loadAirportData_def exampleData_defs)

lemma load_example_AC:
  "loadAirportData (Some requiredColumns) (Some [rowA, rowC]) world0 = Inr (None, worldAC)"
  by (simp add: loadAirportData_def exampleData_defs)

section \<open>When the construction of the directory fails\<close>






section \<open>Two codes, one record\<close>

text \<open>
  C7, the claim as stated fails.  A later record that carries a code of an earlier one
  takes the key over: after the records \<open>A\<close> (\<open>AAA\<close>, \<open>KAAA\<close>) and \<open>B\<close> (\<open>AAA\<close>,
  \<open>KBBB\<close>) the construction has succeeded, and the two codes of \<open>A\<close> lead to two
  different records at two different addresses.
\<close>

theorem codes_of_one_row_lead_to_two_records:
  "loadAirportData (Some requiredColumns) (Some [rowA, rowB]) world0 = Inr (None, worldAB) \<and>
   cell (columnMapOf requiredColumns) rowA ''iata_code'' = ''AAA'' \<and>
   cell (columnMapOf requiredColumns) rowA ''icao_code'' = ''KAAA'' \<and>
   Lookup worldAB ''AAA'' = Some (Ptr 1 airportB) \<and>
   Lookup worldAB ''KAAA'' = Some (Ptr 0 airportA) \<and>
   Lookup worldAB ''AAA'' \<noteq> Lookup worldAB ''KAAA''"
  using load_example_AB
  by (simp add: Lookup_def worldAB_def cell_def exampleData_defs)

text \<open>
  C7 as amended.  After a successful construction, the IATA code and the ICAO code of a
  record that has both lead to one and the same instance, the one built from this
  record, provided no later record carries either of the two codes (a later record
  takes over the keys it carries).
\<close>

theorem both_codes_lead_to_one_instance:
  assumes "loadAirportData (Some header) (Some records) w = Inr (None, w')"
    and "k < length records" and "records ! k \<noteq> []"
    and "cell (columnMapOf header) (records ! k) ''iata_code'' \<noteq> []"
    and "cell (columnMapOf header) (records ! k) ''icao_code'' \<noteq> []"
    and "\<forall>j. k < j \<and> j < length records \<and> records ! j \<noteq> [] \<longrightarrow>
           cell (columnMapOf header) (records ! j) ''iata_code'' \<notin>
             {cell (columnMapOf header) (records ! k) ''iata_code'',
              cell (columnMapOf header) (records ! k) ''icao_code''} \<and>
           cell (columnMapOf header) (records ! j) ''icao_code'' \<notin>
             {cell (columnMapOf header) (records ! k) ''iata_code'',
              cell (columnMapOf header) (records ! k) ''icao_code''}"
  shows "\<exists>a. Lookup w' (cell (columnMapOf header) (records ! k) ''iata_code'') =
               Some (Ptr a (airportOf (columnMapOf header) (records ! k))) \<and>
             Lookup w' (cell (columnMapOf header) (records ! k) ''icao_code'') =
               Some (Ptr a (airportOf (columnMapOf header) (records ! k)))"
proof (cases "list_all (hasColumn header) requiredColumns")
  case False
  from loadAirportData_schema[OF False, of "Some records" w] assms(1) show ?thesis by auto
next
  case True
  from assms(1) have "loadRecords (columnMapOf header) (length header) records
      (w\<lparr>airports := Map.empty\<rparr>) = Inr (None, w')"
    unfolding loadAirportData_records[OF True] .
  from loadRecords_lookup[OF columnMapOf_bounded this assms(2-6)]
  show ?thesis by (simp add: Lookup_def)
qed

theorem both_codes_lead_to_one_instance_witness:
  "loadAirportData (Some requiredColumns) (Some [rowA, rowC]) world0 = Inr (None, worldAC) \<and>
   cell (columnMapOf requiredColumns) ([rowA, rowC] ! 0) ''iata_code'' = ''AAA'' \<and>
   cell (columnMapOf requiredColumns) ([rowA, rowC] ! 0) ''icao_code'' = ''KAAA'' \<and>
   cell (columnMapOf requiredColumns) ([rowA, rowC] ! 1) ''iata_code'' = ''CCC'' \<and>
   cell (columnMapOf requiredColumns) ([rowA, rowC] ! 1) ''icao_code'' = ''KCCC'' \<and>
   airportOf (columnMapOf requiredColumns) ([rowA, rowC] ! 0) = airportA \<and>
   (\<exists>a. Lookup worldAC ''AAA'' = Some (Ptr a airportA) \<and> Lookup worldAC ''KAAA'' = Some (Ptr a airportA))"
proof -
  have c: "cell (columnMapOf requiredColumns) ([rowA, rowC] ! 0) ''iata_code'' = ''AAA''"
    "cell (columnMapOf requiredColumns) ([rowA, rowC] ! 0) ''icao_code'' = ''KAAA''"
    "cell (columnMapOf requiredColumns) ([rowA, rowC] ! 1) ''iata_code'' = ''CCC''"
    "cell (columnMapOf requiredColumns) ([rowA, rowC] ! 1) ''icao_code'' = ''KCCC''"
    "airportOf (columnMapOf requiredColumns) ([rowA, rowC] ! 0) = airportA"
    by (simp_all add: cell_def airportOf_def exampleData_defs)
  have later: "\<forall>j. 0 < j \<and> j < length [rowA, rowC] \<and> [rowA, rowC] ! j \<noteq> [] \<longrightarrow>
           cell (columnMapOf requiredColumns) ([rowA, rowC] ! j) ''iata_code'' \<notin>
             {cell (columnMapOf requiredColumns) ([rowA, rowC] ! 0) ''iata_code'',
              cell (columnMapOf requiredColumns) ([rowA, rowC] ! 0) ''icao_code''} \<and>
           cell (columnMapOf requiredColumns) ([rowA, rowC] ! j) ''icao_code'' \<notin>
             {cell (columnMapOf requiredColumns) ([rowA, rowC] ! 0) ''iata_code'',
              cell (columnMapOf requiredColumns) ([rowA, rowC] ! 0) ''icao_code''}"
  proof (intro allI impI)
    fix j assume "0 < j \<and> j < length [rowA, rowC] \<and> [rowA, rowC] ! j \<noteq> []"
    then have "j = 1" by simp
    then show "cell (columnMapOf requiredColumns) ([rowA, rowC] ! j) ''iata_code'' \<notin>
             {cell (columnMapOf requiredColumns) ([rowA, rowC] ! 0) ''iata_code'',
              cell (columnMapOf requiredColumns) ([rowA, rowC] ! 0) ''icao_code''} \<and>
           cell (columnMapOf requiredColumns) ([rowA, rowC] ! j) ''icao_code'' \<notin>
             {cell (columnMapOf requiredColumns) ([rowA, rowC] ! 0) ''iata_code'',
              cell (columnMapOf requiredColumns) ([rowA, rowC] ! 0) ''icao_code''}"
      using c by simp
  qed
  have "\<exists>a. Lookup worldAC (cell (columnMapOf requiredColumns) ([rowA, rowC] ! 0) ''iata_code'') =
               Some (Ptr a (airportOf (columnMapOf requiredColumns) ([rowA, rowC] ! 0))) \<and>
             Lookup worldAC (cell (columnMapOf requiredColumns) ([rowA, rowC] ! 0) ''icao_code'') =
               Some (Ptr a (airportOf (columnMapOf requiredColumns) ([rowA, rowC] ! 0)))"
  proof (rule both_codes_lead_to_one_instance[OF load_example_AC _ _ _ _ later])
    show "0 < length [rowA, rowC]" by simp
    show "[rowA, rowC] ! 0 \<noteq> []" by (simp add: rowA_def)
    show "cell (columnMapOf requiredColumns) ([rowA, rowC] ! 0) ''iata_code'' \<noteq> []"
      "cell (columnMapOf requiredColumns) ([rowA, rowC] ! 0) ''icao_code'' \<noteq> []"
      unfolding c by simp_all
  qed
  then show ?thesis using load_example_AC unfolding c by simp
qed

section \<open>Facts about the vertical collapse\<close>

lemma scan_no_match: "re (c # cs) = None \<Longrightarrow> scan re (c # cs) = Inr c # scan re cs"
  by simp

lemma scan_match:
  "re (c # cs) = Some (m # gs) \<Longrightarrow> m \<noteq> [] \<Longrightarrow>
   scan re (c # cs) = Inl m # scan re (drop (length m) (c # cs))"
  by simp

declare scan.simps(2) [simp del]

lemma escape_step: "replaceAllString escapeRegex s [NL] = escapesToNewlines s"
  unfolding replaceAllString_render
proof (induction s rule: escapesToNewlines.induct)
  case (1 a b rest)
  show ?case
  proof (cases "a = BSL \<and> b \<in> {CHR ''r'', CHR ''v'', CHR ''f''}")
    case True
    then have "escapeRegex (a # b # rest) = Some [[a, b]]" by (auto simp: escapeRegex_def)
    then have "scan escapeRegex (a # b # rest) = Inl [a, b] # scan escapeRegex rest"
      by (simp add: scan_match)
    with 1 True show ?thesis by (simp add: render_Inl)
  next
    case False
    then have "escapeRegex (a # b # rest) = None" by (auto simp: escapeRegex_def)
    then have "scan escapeRegex (a # b # rest) = Inr a # scan escapeRegex (b # rest)"
      by (rule scan_no_match)
    with 1 False show ?thesis by (auto simp: render_Inr)
  qed
qed (simp_all add: render_def scan_no_match escapeRegex_def)

lemma controlRuns_run:
  "c \<in> {CR, VT, FF} \<Longrightarrow>
   controlRunsToNewline (c # cs) = NL # controlRunsToNewline (dropWhile (\<lambda>c. c \<in> {CR, VT, FF}) cs)"
proof (induction cs arbitrary: c)
  case Nil
  then show ?case by simp
next
  case (Cons d ds)
  show ?case
  proof (cases "d \<in> {CR, VT, FF}")
    case True
    with Cons.prems have "controlRunsToNewline (c # d # ds) = controlRunsToNewline (d # ds)" by simp
    with Cons.IH[OF True] True show ?thesis by simp
  next
    case False
    with Cons.prems show ?thesis by simp
  qed
qed

lemma control_step: "replaceAllString controlRegex s [NL] = controlRunsToNewline s"
  unfolding replaceAllString_render
proof (induction s rule: length_induct)
  case (1 s)
  show ?case
  proof (cases s)
    case Nil
    then show ?thesis by (simp add: render_def)
  next
    case (Cons c cs)
    show ?thesis
    proof (cases "c \<in> {CR, VT, FF}")
      case True
      let ?P = "\<lambda>c. c \<in> {CR, VT, FF}"
      have m: "controlRegex (c # cs) = Some [c # takeWhile ?P cs]"
        using True by (simp add: controlRegex_def)
      have "drop (length (c # takeWhile ?P cs)) (c # cs) = dropWhile ?P cs"
        by (simp add: dropWhile_eq_drop)
      with m have sc: "scan controlRegex (c # cs) =
          Inl (c # takeWhile ?P cs) # scan controlRegex (dropWhile ?P cs)"
        by (simp add: scan_match)
      have "length (dropWhile ?P cs) < length s" using Cons
        by (simp add: length_dropWhile_le le_imp_less_Suc)
      with 1 have "render (\<lambda>m. [NL]) (scan controlRegex (dropWhile ?P cs)) =
          controlRunsToNewline (dropWhile ?P cs)" by blast
      with sc controlRuns_run[OF True, of cs] Cons show ?thesis by (simp add: render_Inl)
    next
      case False
      then have "controlRegex (c # cs) = None" by (simp add: controlRegex_def)
      then have "scan controlRegex (c # cs) = Inr c # scan controlRegex cs" by (rule scan_no_match)
      with 1 False Cons show ?thesis by (simp add: render_Inr)
    qed
  qed
qed

lemma collapse_keep:
  "\<not> (c = NL \<and> take 2 cs = [NL, NL]) \<Longrightarrow> collapseNewlines (c # cs) = c # collapseNewlines cs"
proof (cases cs rule: list_upto5)
  case 1 then show ?thesis by simp
next
  case (2 a) then show ?thesis by simp
qed auto

lemma collapse_run:
  assumes "take 1 rest \<noteq> [NL]"
  shows "collapseNewlines (replicate (Suc (Suc n)) NL @ rest) = NL # NL # collapseNewlines rest"
proof (induction n)
  case 0
  have "collapseNewlines (NL # rest) = NL # collapseNewlines rest"
    using assms by (intro collapse_keep) (cases rest, auto)
  moreover have "collapseNewlines (NL # NL # rest) = NL # collapseNewlines (NL # rest)"
    using assms by (intro collapse_keep) (cases rest, auto)
  ultimately show ?case by simp
next
  case (Suc n)
  then show ?case by simp
qed

lemma takeWhile_same: "takeWhile (\<lambda>c. c = x) s = replicate (length (takeWhile (\<lambda>c. c = x) s)) x"
  by (induction s) auto

lemma dropWhile_head: "P x \<Longrightarrow> take 1 (dropWhile P s) \<noteq> [x]"
  by (induction s) auto

lemma length_take_drop_While: "length (takeWhile P s) + length (dropWhile P s) = length s"
  by (induction s) auto

lemma newlines_step: "replaceAllString newlinesRegex s [NL, NL] = collapseNewlines s"
  unfolding replaceAllString_render
proof (induction s rule: length_induct)
  case (1 s)
  show ?case
  proof (cases s)
    case Nil
    then show ?thesis by (simp add: render_def)
  next
    case (Cons c cs)
    let ?P = "\<lambda>c. c = NL"
    let ?run = "takeWhile ?P (c # cs)"
    show ?thesis
    proof (cases "3 \<le> length ?run")
      case True
      then have m: "newlinesRegex (c # cs) = Some [?run]" by (simp add: newlinesRegex_def Let_def)
      have ne: "?run \<noteq> []" using True by (auto split: if_splits)
      have d: "drop (length ?run) (c # cs) = dropWhile ?P (c # cs)"
        by (simp only: dropWhile_eq_drop)
      from m ne d have sc: "scan newlinesRegex (c # cs) =
          Inl ?run # scan newlinesRegex (dropWhile ?P (c # cs))"
        using scan_match[of newlinesRegex c cs ?run "[]"] by simp
      have "length (dropWhile ?P (c # cs)) < length (c # cs)"
        using ne length_take_drop_While[of ?P "c # cs"] by (cases ?run) auto
      with 1 Cons have ih: "render (\<lambda>m. [NL, NL]) (scan newlinesRegex (dropWhile ?P (c # cs))) =
          collapseNewlines (dropWhile ?P (c # cs))" by blast
      have run: "?run = replicate (length ?run) NL" by (rule takeWhile_same)
      define n where "n = length ?run - 2"
      have n: "length ?run = Suc (Suc n)" using True by (simp add: n_def)
      have "take 1 (dropWhile ?P (c # cs)) \<noteq> [NL]" by (rule dropWhile_head) simp
      from collapse_run[OF this, of n]
      have "collapseNewlines (replicate (length ?run) NL @ dropWhile ?P (c # cs)) =
            NL # NL # collapseNewlines (dropWhile ?P (c # cs))" unfolding n .
      moreover have "replicate (length ?run) NL @ dropWhile ?P (c # cs) = c # cs"
        using run takeWhile_dropWhile_id[of ?P "c # cs"] by simp
      ultimately have "collapseNewlines (c # cs) = NL # NL # collapseNewlines (dropWhile ?P (c # cs))"
        by simp
      with sc ih Cons show ?thesis by (simp add: render_Inl)
    next
      case False
      then have "newlinesRegex (c # cs) = None" by (simp add: newlinesRegex_def Let_def)
      then have sc: "scan newlinesRegex (c # cs) = Inr c # scan newlinesRegex cs"
        by (rule scan_no_match)
      have "\<not> (c = NL \<and> take 2 cs = [NL, NL])"
      proof
        assume a: "c = NL \<and> take 2 cs = [NL, NL]"
        then have "cs = NL # NL # drop 2 cs"
          using append_take_drop_id[of 2 cs] by simp
        then obtain r where "cs = NL # NL # r" ..
        with a False show False by simp
      qed
      from collapse_keep[OF this] sc 1 Cons show ?thesis by (simp add: render_Inr)
    qed
  qed
qed

lemma trimVerticalWhitespace_steps:
  "trimVerticalWhitespace s = collapseNewlines (controlRunsToNewline (escapesToNewlines s))"
  by (simp add: trimVerticalWhitespace_def Let_def escape_step control_step newlines_step)

lemma newline_not_control: "NL \<notin> {CR, VT, FF}"
  by (simp add: NL_def CR_def VT_def FF_def)

lemma controlRuns_no_control: "c \<in> set (controlRunsToNewline s) \<Longrightarrow> c \<notin> {CR, VT, FF}"
  using newline_not_control
  by (induction s rule: controlRunsToNewline.induct) (auto split: if_splits)

lemma collapse_subset: "set (collapseNewlines s) \<subseteq> set s"
  by (induction s rule: collapseNewlines.induct) auto

lemma collapse_head: "collapseNewlines s = [] \<longleftrightarrow> s = []" "s \<noteq> [] \<Longrightarrow> hd (collapseNewlines s) = hd s"
  by (induction s rule: collapseNewlines.induct) auto

lemma take2_eq: "take 2 z = [x, y] \<longleftrightarrow> (\<exists>r. z = x # y # r)"
proof
  assume "take 2 z = [x, y]"
  then have "z = x # y # drop 2 z" using append_take_drop_id[of 2 z] by simp
  then show "\<exists>r. z = x # y # r" ..
qed auto

lemma collapse_two_newlines:
  "take 2 (collapseNewlines s) = [NL, NL] \<Longrightarrow> take 2 s = [NL, NL]"
proof (induction s rule: collapseNewlines.induct)
  case (1 a b c rest)
  show ?case
  proof (cases "a = NL \<and> b = NL \<and> c = NL")
    case True
    then show ?thesis by simp
  next
    case False
    with 1(3) have t: "take 2 (a # collapseNewlines (b # c # rest)) = [NL, NL]" by simp
    then obtain r where "a # collapseNewlines (b # c # rest) = NL # NL # r"
      unfolding take2_eq by blast
    then have "a = NL" "hd (collapseNewlines (b # c # rest)) = NL" by simp_all
    with collapse_head(2)[of "b # c # rest"] show ?thesis by simp
  qed
qed simp_all

lemma hasTriple_Cons:
  "hasTripleNewline (a # z) = ((a = NL \<and> take 2 z = [NL, NL]) \<or> hasTripleNewline z)"
proof (cases z rule: list_upto5)
  case 1 then show ?thesis by simp
next
  case (2 b) then show ?thesis by simp
qed auto

lemma collapse_no_triple: "\<not> hasTripleNewline (collapseNewlines s)"
proof (induction s rule: collapseNewlines.induct)
  case (1 a b c rest)
  show ?case
  proof (cases "a = NL \<and> b = NL \<and> c = NL")
    case True
    with 1 show ?thesis by simp
  next
    case False
    have n: "\<not> (a = NL \<and> take 2 (collapseNewlines (b # c # rest)) = [NL, NL])"
      using collapse_two_newlines[of "b # c # rest"] False by auto
    have e: "collapseNewlines (a # b # c # rest) = a # collapseNewlines (b # c # rest)"
      using False by auto
    show ?thesis unfolding e hasTriple_Cons using n 1(2)[OF False] by blast
  qed
qed simp_all

section \<open>The vertical collapse\<close>

text \<open>
  C4.  The vertical step does, on every text, the three things the specification
  lists, in this order: every backslash followed by \<open>r\<close>, \<open>v\<close> or \<open>f\<close> becomes a newline,
  every run of carriage returns, vertical tabs and form feeds becomes one newline, and
  every run of three or more newlines becomes two.  So its result never has three
  newlines in a row, nor any of the three control characters; four blank lines between
  two paragraphs come out of the plain rendering as one.
\<close>

theorem vertical_collapse_as_specified:
  "trimVerticalWhitespace s = collapseNewlines (controlRunsToNewline (escapesToNewlines s)) \<and>
   \<not> hasTripleNewline (trimVerticalWhitespace s) \<and>
   CR \<notin> set (trimVerticalWhitespace s) \<and>
   VT \<notin> set (trimVerticalWhitespace s) \<and>
   FF \<notin> set (trimVerticalWhitespace s) \<and>
   plainProcessContent d (''One'' @ [NL, NL, NL, NL, NL] @ ''Two'') = Inr (''One'' @ [NL, NL] @ ''Two'')"
proof -
  have ctl: "c \<notin> set (trimVerticalWhitespace s)" if "c \<in> {CR, VT, FF}" for c
  proof
    assume "c \<in> set (trimVerticalWhitespace s)"
    then have "c \<in> set (controlRunsToNewline (escapesToNewlines s))"
      unfolding trimVerticalWhitespace_steps using collapse_subset by blast
    with controlRuns_no_control that show False by blast
  qed
  have "CHR ''#'' \<notin> set (''One'' @ [NL, NL, NL, NL, NL] @ ''Two'')" by (simp add: NL_def)
  then have "plainProcessAirportCodes d (''One'' @ [NL, NL, NL, NL, NL] @ ''Two'') =
      Inr (''One'' @ [NL, NL, NL, NL, NL] @ ''Two'')"
    by (rule plainProcessAirportCodes_no_hash)
  moreover have "plainProcessDatesAndTimes (''One'' @ [NL, NL, NL, NL, NL] @ ''Two'') =
      Inr (''One'' @ [NL, NL, NL, NL, NL] @ ''Two'')" by code_simp
  moreover have "trimVerticalWhitespace (trimHorizontalWhitespace (''One'' @ [NL, NL, NL, NL, NL] @ ''Two'')) =
      ''One'' @ [NL, NL] @ ''Two''" by code_simp
  ultimately have "plainProcessContent d (''One'' @ [NL, NL, NL, NL, NL] @ ''Two'') =
      Inr (''One'' @ [NL, NL] @ ''Two'')"
    by (simp add: plainProcessContent_def)
  then show ?thesis
    using ctl[of CR] ctl[of VT] ctl[of FF] collapse_no_triple
    by (simp add: trimVerticalWhitespace_steps)
qed

theorem vertical_collapse_as_specified_witness:
  "trimVerticalWhitespace (''a'' @ [BSL] @ ''rb'' @ [CR, VT, FF, CR] @ ''c'' @ [NL, NL, NL, NL] @ ''d'') =
     ''a'' @ [NL] @ ''b'' @ [NL] @ ''c'' @ [NL, NL] @ ''d'' \<and>
   collapseNewlines (controlRunsToNewline (escapesToNewlines
       (''a'' @ [BSL] @ ''rb'' @ [CR, VT, FF, CR] @ ''c'' @ [NL, NL, NL, NL] @ ''d''))) =
     ''a'' @ [NL] @ ''b'' @ [NL] @ ''c'' @ [NL, NL] @ ''d'' \<and>
   \<not> hasTripleNewline (trimVerticalWhitespace
       (''a'' @ [BSL] @ ''rb'' @ [CR, VT, FF, CR] @ ''c'' @ [NL, NL, NL, NL] @ ''d'')) \<and>
   plainProcessContent Map.empty (''One'' @ [NL, NL, NL, NL, NL] @ ''Two'') = Inr (''One'' @ [NL, NL] @ ''Two'')"
proof -
  let ?X = "''a'' @ [BSL] @ ''rb'' @ [CR, VT, FF, CR] @ ''c'' @ [NL, NL, NL, NL] @ ''d''"
  have e: "collapseNewlines (controlRunsToNewline (escapesToNewlines ?X)) =
     ''a'' @ [NL] @ ''b'' @ [NL] @ ''c'' @ [NL, NL] @ ''d''" by code_simp
  note th = vertical_collapse_as_specified[of ?X Map.empty]
  from th have 1: "trimVerticalWhitespace ?X = collapseNewlines (controlRunsToNewline (escapesToNewlines ?X))"
    by (rule conjunct1)
  from th have 2: "\<not> hasTripleNewline (trimVerticalWhitespace ?X)" by blast
  from th have 3: "plainProcessContent Map.empty (''One'' @ [NL, NL, NL, NL, NL] @ ''Two'') =
      Inr (''One'' @ [NL, NL] @ ''Two'')" by blast
  show ?thesis
  proof (intro conjI)
    show "trimVerticalWhitespace ?X = ''a'' @ [NL] @ ''b'' @ [NL] @ ''c'' @ [NL, NL] @ ''d''"
      using 1 e by (rule trans)
  qed (rule e 2 3)+
qed

section \<open>Facts about lines and words\<close>

declare Fields.simps [simp del]

lemma Fields_blank: "dropWhile isSpace s = [] \<Longrightarrow> Fields s = []"
  by (simp add: Fields.simps[of s])

lemma Fields_word:
  "dropWhile isSpace s \<noteq> [] \<Longrightarrow>
   Fields s = takeWhile (\<lambda>c. \<not> isSpace c) (dropWhile isSpace s) #
              Fields (dropWhile (\<lambda>c. \<not> isSpace c) (dropWhile isSpace s))"
  by (subst Fields.simps) (simp add: Let_def)

lemma Fields_words: "w \<in> set (Fields s) \<Longrightarrow> w \<noteq> [] \<and> (\<forall>c\<in>set w. \<not> isSpace c)"
proof (induction s rule: Fields.induct)
  case (1 s)
  show ?case
  proof (cases "dropWhile isSpace s = []")
    case True
    with 1(2) show ?thesis by (simp add: Fields_blank)
  next
    case False
    let ?r = "dropWhile isSpace s"
    from 1(2) Fields_word[OF False]
    consider "w = takeWhile (\<lambda>c. \<not> isSpace c) ?r" | "w \<in> set (Fields (dropWhile (\<lambda>c. \<not> isSpace c) ?r))"
      by auto
    then show ?thesis
    proof cases
      case 1
      have "\<not> isSpace (hd ?r)" using False by (rule hd_dropWhile)
      then have "takeWhile (\<lambda>c. \<not> isSpace c) ?r \<noteq> []" using False by (cases ?r) auto
      with 1 show ?thesis by (auto dest: set_takeWhileD)
    next
      case 2
      from "1.IH"[OF refl False 2] show ?thesis .
    qed
  qed
qed

lemma Fields_space: "isSpace c \<Longrightarrow> Fields (c # s) = Fields s"
proof (cases "dropWhile isSpace s = []")
  case True
  assume "isSpace c"
  with True show ?thesis by (simp add: Fields_blank)
next
  case False
  assume "isSpace c"
  with False show ?thesis by (simp add: Fields_word)
qed

lemma Fields_head:
  assumes "w \<noteq> []" "\<forall>c\<in>set w. \<not> isSpace c" "rest = [] \<or> isSpace (hd rest)"
  shows "Fields (w @ rest) = w # Fields rest"
proof -
  from assms(1,2) have h: "\<not> isSpace (hd w)" by (cases w) auto
  then have d: "dropWhile isSpace (w @ rest) = w @ rest" using assms(1) by (cases w) auto
  have t: "takeWhile (\<lambda>c. \<not> isSpace c) (w @ rest) = w"
    using assms(2,3) by (cases rest) (auto simp: takeWhile_append2 takeWhile_tail)
  have dr: "dropWhile (\<lambda>c. \<not> isSpace c) (w @ rest) = rest"
    using assms(2,3) by (cases rest) (auto simp: dropWhile_append2)
  have "Fields (w @ rest) = takeWhile (\<lambda>c. \<not> isSpace c) (w @ rest) #
      Fields (dropWhile (\<lambda>c. \<not> isSpace c) (w @ rest))"
    using Fields_word[of "w @ rest"] d assms(1) by simp
  then show ?thesis unfolding t dr .
qed

lemma space_is_space: "isSpace (CHR '' '')" "isSpace NL"
  by (simp_all add: isSpace_def)

lemma Fields_join:
  "\<forall>w\<in>set ws. w \<noteq> [] \<and> (\<forall>c\<in>set w. \<not> isSpace c) \<Longrightarrow> Fields (join ws '' '') = ws"
proof (induction ws "'' ''" rule: join.induct)
  case 1
  then show ?case by (simp add: Fields_blank)
next
  case (2 x)
  then have "Fields (x @ []) = x # Fields []" by (intro Fields_head) auto
  then show ?case by (simp add: Fields_blank)
next
  case (3 x y ys)
  have "Fields (x @ '' '' @ join (y # ys) '' '') = x # Fields ('' '' @ join (y # ys) '' '')"
    using 3(2) by (intro Fields_head) (auto simp: space_is_space)
  also have "Fields ('' '' @ join (y # ys) '' '') = Fields (join (y # ys) '' '')"
    using Fields_space[OF space_is_space(1)] by simp
  also have "\<dots> = y # ys" using 3 by simp
  finally show ?case by simp
qed

lemma norm_idem: "join (Fields (join (Fields line) '' '')) '' '' = join (Fields line) '' ''"
  using Fields_join[of "Fields line"] Fields_words[of _ line] by simp

lemma join_chars: "c \<in> set (join ls sep) \<Longrightarrow> c \<in> set sep \<or> (\<exists>l\<in>set ls. c \<in> set l)"
  by (induction ls sep rule: join.induct) auto

lemma norm_chars: "c \<in> set (join (Fields line) '' '') \<Longrightarrow> c = CHR '' '' \<or> \<not> isSpace c"
  using join_chars[of c "Fields line" "'' ''"] Fields_words[of _ line] by auto

lemma split_nonempty: "split s \<noteq> []"
  by (induction s) (auto split: list.splits)

lemma join_split: "join (split s) [NL] = s"
proof (induction s)
  case Nil
  then show ?case by simp
next
  case (Cons c cs)
  obtain l ls where s: "split cs = l # ls" using split_nonempty[of cs] by (cases "split cs") auto
  show ?case
  proof (cases "c = NL")
    case True
    with Cons s show ?thesis by simp
  next
    case False
    with Cons s show ?thesis by (cases ls) auto
  qed
qed

lemma split_append_line:
  "NL \<notin> set l \<Longrightarrow> split (l @ NL # rest) = l # split rest"
  by (induction l) (auto simp: split_nonempty split: list.splits)

lemma split_line: "NL \<notin> set l \<Longrightarrow> split l = [l]"
  by (induction l) (auto split: list.splits)

lemma split_join:
  "ls \<noteq> [] \<Longrightarrow> \<forall>l\<in>set ls. NL \<notin> set l \<Longrightarrow> split (join ls [NL]) = ls"
proof (induction ls "[NL]" rule: join.induct)
  case 1
  then show ?case by simp
next
  case (2 x)
  then show ?case by (simp add: split_line)
next
  case (3 x y ys)
  then show ?case by (simp add: split_append_line)
qed

section \<open>Facts about normalizing twice\<close>

lemma horizontal_lines:
  "split (trimHorizontalWhitespace s) = map (\<lambda>line. join (Fields line) '' '') (split s)"
  unfolding trimHorizontalWhitespace_def
proof (rule split_join)
  show "map (\<lambda>line. join (Fields line) '' '') (split s) \<noteq> []" by (simp add: split_nonempty)
  show "\<forall>l\<in>set (map (\<lambda>line. join (Fields line) '' '') (split s)). NL \<notin> set l"
    using norm_chars[of NL] space_is_space(2) by (auto simp: NL_def)
qed

lemma horizontal_fixed:
  assumes "\<forall>l\<in>set (split t). join (Fields l) '' '' = l"
  shows "trimHorizontalWhitespace t = t"
proof -
  have "map (\<lambda>line. join (Fields line) '' '') (split t) = split t"
    using assms by (simp add: map_idI)
  then show ?thesis by (simp add: trimHorizontalWhitespace_def join_split)
qed

lemma horizontal_chars:
  "c \<in> set (trimHorizontalWhitespace s) \<Longrightarrow> c = NL \<or> c = CHR '' '' \<or> \<not> isSpace c"
  unfolding trimHorizontalWhitespace_def
  using join_chars[of c "map (\<lambda>line. join (Fields line) '' '') (split s)" "[NL]"] norm_chars[of c]
  by auto

lemma control_is_space: "c \<in> {CR, VT, FF} \<Longrightarrow> isSpace c \<and> c \<noteq> NL \<and> c \<noteq> CHR '' ''"
  by (auto simp: isSpace_def CR_def VT_def FF_def NL_def)

lemma horizontal_no_control: "c \<in> set (trimHorizontalWhitespace s) \<Longrightarrow> c \<notin> {CR, VT, FF}"
  using horizontal_chars[of c s] control_is_space[of c] by blast

lemma split_hd_Cons: "hd (split (c # cs)) = (if c = NL then [] else c # hd (split cs))"
  "tl (split (c # cs)) = (if c = NL then split cs else tl (split cs))"
  using split_nonempty[of cs] by (auto split: list.splits)

declare split.simps(2) [simp del]

lemma set_split: "set (split z) = insert (hd (split z)) (set (tl (split z)))"
  by (metis split_nonempty list.collapse list.simps(15))

lemma collapse_lines:
  "hd (split (collapseNewlines s)) = hd (split s) \<and>
   set (tl (split (collapseNewlines s))) \<subseteq> set (tl (split s))"
proof (induction s rule: collapseNewlines.induct)
  case (1 a b c rest)
  let ?y = "b # c # rest"
  have sub: "set (tl (split z)) \<subseteq> set (split z)" for z
    by (rule list.set_sel(2)[THEN subsetI]) (rule split_nonempty)
  have whole: "set (split (collapseNewlines ?y)) \<subseteq> set (split ?y)"
    if "hd (split (collapseNewlines ?y)) = hd (split ?y)"
       "set (tl (split (collapseNewlines ?y))) \<subseteq> set (tl (split ?y))"
  proof -
    have "set (split (collapseNewlines ?y)) =
        insert (hd (split (collapseNewlines ?y))) (set (tl (split (collapseNewlines ?y))))"
      by (rule set_split)
    also have "\<dots> \<subseteq> insert (hd (split ?y)) (set (tl (split ?y)))"
      unfolding that(1) using that(2) by (rule insert_mono)
    also have "\<dots> = set (split ?y)" by (rule set_split[symmetric])
    finally show ?thesis .
  qed
  show ?case
  proof (cases "a = NL \<and> b = NL \<and> c = NL")
    case True
    with 1(1) have ih: "hd (split (collapseNewlines ?y)) = hd (split ?y)"
      "set (tl (split (collapseNewlines ?y))) \<subseteq> set (tl (split ?y))" by simp_all
    have e: "collapseNewlines (a # ?y) = collapseNewlines ?y" using True by simp
    have h1: "hd (split ?y) = []" using True by (simp add: split_hd_Cons)
    have h2: "hd (split (a # ?y)) = []" using True by (simp add: split_hd_Cons)
    have t2: "tl (split (a # ?y)) = split ?y" using True by (simp add: split_hd_Cons)
    have "hd (split (collapseNewlines ?y)) = hd (split (a # ?y))" using ih(1) h1 h2 by simp
    moreover have "set (tl (split (collapseNewlines ?y))) \<subseteq> set (tl (split (a # ?y)))"
      unfolding t2 using ih(2) sub[of ?y] by (rule subset_trans)
    ultimately show ?thesis unfolding e by (rule conjI)
  next
    case False
    with 1(2) have ih: "hd (split (collapseNewlines ?y)) = hd (split ?y)"
      "set (tl (split (collapseNewlines ?y))) \<subseteq> set (tl (split ?y))" by simp_all
    have e: "collapseNewlines (a # ?y) = a # collapseNewlines ?y" using False by auto
    show ?thesis
    proof (cases "a = NL")
      case True
      have "hd (split (a # collapseNewlines ?y)) = hd (split (a # ?y))"
        using True by (simp add: split_hd_Cons)
      moreover have "set (tl (split (a # collapseNewlines ?y))) \<subseteq> set (tl (split (a # ?y)))"
        using True whole[OF ih] by (simp add: split_hd_Cons)
      ultimately show ?thesis unfolding e by (rule conjI)
    next
      case False
      have "hd (split (a # collapseNewlines ?y)) = hd (split (a # ?y))"
        using False ih(1) by (simp add: split_hd_Cons)
      moreover have "set (tl (split (a # collapseNewlines ?y))) \<subseteq> set (tl (split (a # ?y)))"
        using False ih(2) by (simp add: split_hd_Cons)
      ultimately show ?thesis unfolding e by (rule conjI)
    qed
  qed
qed simp_all

lemma collapse_lines_subset: "set (split (collapseNewlines s)) \<subseteq> set (split s)"
proof -
  from collapse_lines[of s] have h: "hd (split (collapseNewlines s)) = hd (split s)"
    and t: "set (tl (split (collapseNewlines s))) \<subseteq> set (tl (split s))" by (rule conjunct1, rule conjunct2)
  have "set (split (collapseNewlines s)) =
      insert (hd (split (collapseNewlines s))) (set (tl (split (collapseNewlines s))))"
    by (rule set_split)
  also have "\<dots> \<subseteq> insert (hd (split s)) (set (tl (split s)))"
    unfolding h using t by (rule insert_mono)
  also have "\<dots> = set (split s)" by (rule set_split[symmetric])
  finally show ?thesis .
qed

lemma horizontal_after_collapse:
  "trimHorizontalWhitespace (collapseNewlines (trimHorizontalWhitespace s)) =
   collapseNewlines (trimHorizontalWhitespace s)"
proof (rule horizontal_fixed, rule ballI)
  fix l assume "l \<in> set (split (collapseNewlines (trimHorizontalWhitespace s)))"
  then have "l \<in> set (split (trimHorizontalWhitespace s))" using collapse_lines_subset by blast
  then obtain l0 where "l = join (Fields l0) '' ''" unfolding horizontal_lines by auto
  then show "join (Fields l) '' '' = l" by (simp add: norm_idem)
qed

lemma hasEscape_Cons:
  "hasEscape (a # z) =
     ((z \<noteq> [] \<and> a = BSL \<and> hd z \<in> {CHR ''r'', CHR ''v'', CHR ''f''}) \<or> hasEscape z)"
  by (cases z) auto

declare hasEscape.simps(1) [simp del]

lemma hasEscape_append:
  "hasEscape (x @ y) =
     (hasEscape x \<or> hasEscape y \<or>
      (x \<noteq> [] \<and> y \<noteq> [] \<and> last x = BSL \<and> hd y \<in> {CHR ''r'', CHR ''v'', CHR ''f''}))"
proof (induction x)
  case Nil
  then show ?case by simp
next
  case (Cons a x)
  show ?case
  proof (cases "x = []")
    case True
    then show ?thesis by (auto simp: hasEscape_Cons)
  next
    case False
    then have "hd (x @ y) = hd x" by simp
    with Cons False show ?thesis by (auto simp: hasEscape_Cons)
  qed
qed

lemma separator_chars:
  "NL \<notin> {BSL, CHR ''r'', CHR ''v'', CHR ''f''}" "CHR '' '' \<notin> {BSL, CHR ''r'', CHR ''v'', CHR ''f''}"
  by (simp_all add: NL_def BSL_def)

lemma hasEscape_join:
  assumes "sep \<notin> {BSL, CHR ''r'', CHR ''v'', CHR ''f''}"
  shows "hasEscape (join ls [sep]) \<Longrightarrow> \<exists>l\<in>set ls. hasEscape l"
proof (induction ls "[sep]" rule: join.induct)
  case 1
  then show ?case by simp
next
  case (2 x)
  then show ?case by simp
next
  case (3 x y ys)
  from 3(2) have "hasEscape (x @ sep # join (y # ys) [sep])" by simp
  then have "hasEscape x \<or> hasEscape (join (y # ys) [sep])"
    using assms by (auto simp: hasEscape_append hasEscape_Cons)
  with 3(1) show ?case by auto
qed

lemma hasEscape_part: "hasEscape x \<Longrightarrow> hasEscape (p @ x @ q)"
  by (simp add: hasEscape_append)

lemma hasEscape_suffix: "hasEscape x \<Longrightarrow> hasEscape (p @ x)"
  by (simp add: hasEscape_append)

lemma hasEscape_word: "w \<in> set (Fields line) \<Longrightarrow> hasEscape w \<Longrightarrow> hasEscape line"
proof (induction line rule: Fields.induct)
  case (1 s)
  show ?case
  proof (cases "dropWhile isSpace s = []")
    case True
    with 1(2) show ?thesis by (simp add: Fields_blank)
  next
    case False
    let ?r = "dropWhile isSpace s"
    let ?w = "takeWhile (\<lambda>c. \<not> isSpace c) ?r" and ?rest = "dropWhile (\<lambda>c. \<not> isSpace c) ?r"
    have s: "s = takeWhile isSpace s @ ?w @ ?rest" by simp
    from 1(2) Fields_word[OF False] consider "w = ?w" | "w \<in> set (Fields ?rest)" by auto
    then show ?thesis
    proof cases
      case 1
      with \<open>hasEscape w\<close> have "hasEscape ?w" by blast
      then have "hasEscape (takeWhile isSpace s @ ?w @ ?rest)" by (rule hasEscape_part)
      then show ?thesis by (subst s)
    next
      case 2
      have s2: "s = (takeWhile isSpace s @ ?w) @ ?rest" by simp
      from "1.IH"[OF refl False 2 1(3)] have "hasEscape ?rest" .
      then have "hasEscape ((takeWhile isSpace s @ ?w) @ ?rest)" by (rule hasEscape_suffix)
      then show ?thesis by (subst s2)
    qed
  qed
qed

lemma hasEscape_horizontal: "hasEscape (trimHorizontalWhitespace s) \<Longrightarrow> hasEscape s"
proof -
  assume "hasEscape (trimHorizontalWhitespace s)"
  then obtain l where l: "l \<in> set (split s)" "hasEscape (join (Fields l) '' '')"
    unfolding trimHorizontalWhitespace_def
    using hasEscape_join[OF separator_chars(1)] by fastforce
  from hasEscape_join[OF separator_chars(2) l(2)] obtain w where "w \<in> set (Fields l)" "hasEscape w"
    by blast
  then have "hasEscape l" by (rule hasEscape_word)
  with l(1) have "\<exists>l\<in>set (split s). hasEscape l" by blast
  moreover have "hasEscape (join ls [NL])" if "\<exists>l\<in>set ls. hasEscape l" for ls
    using that
  proof (induction ls "[NL]" rule: join.induct)
    case 1 then show ?case by simp
  next
    case (2 x) then show ?case by simp
  next
    case (3 x y ys)
    then show ?case by (auto simp: hasEscape_append hasEscape_Cons)
  qed
  ultimately have "hasEscape (join (split s) [NL])" by blast
  then show ?thesis by (simp add: join_split)
qed

lemma hasEscape_collapse: "hasEscape (collapseNewlines s) \<Longrightarrow> hasEscape s"
proof (induction s rule: collapseNewlines.induct)
  case (1 a b c rest)
  show ?case
  proof (cases "a = NL \<and> b = NL \<and> c = NL")
    case True
    with 1 have "hasEscape (b # c # rest)" by simp
    then show ?thesis by (simp add: hasEscape_Cons[of a])
  next
    case False
    with 1(3) have "hasEscape (a # collapseNewlines (b # c # rest))" by auto
    then have "(a = BSL \<and> hd (collapseNewlines (b # c # rest)) \<in> {CHR ''r'', CHR ''v'', CHR ''f''}) \<or>
        hasEscape (collapseNewlines (b # c # rest))"
      by (auto simp: hasEscape_Cons[of a])
    with 1(2)[OF False] collapse_head(2)[of "b # c # rest"] show ?thesis
      by (auto simp: hasEscape_Cons[of a])
  qed
qed simp_all

lemma escapes_fixed: "\<not> hasEscape t \<Longrightarrow> escapesToNewlines t = t"
  by (induction t rule: escapesToNewlines.induct) (auto simp: hasEscape_Cons)

lemma controlRuns_fixed: "\<forall>c\<in>set t. c \<notin> {CR, VT, FF} \<Longrightarrow> controlRunsToNewline t = t"
  by (induction t rule: controlRunsToNewline.induct) auto

lemma collapse_fixed: "\<not> hasTripleNewline t \<Longrightarrow> collapseNewlines t = t"
  by (induction t rule: collapseNewlines.induct) auto

section \<open>Normalizing twice\<close>

text \<open>
  C5, the claim as stated fails.  The horizontal step runs before the vertical step
  turns a literal escape sequence into a newline, so a space next to the sequence ends
  up at the end of a line, where a second run removes it: \<open>a \r\<close> (a letter, a space,
  a backslash and an \<open>r\<close>) normalizes to the letter, a space and a newline, and that
  normalizes to the letter and a newline.
\<close>

theorem normalization_not_idempotent:
  "normalizeWhitespace (''a '' @ [BSL] @ ''r'') = ''a '' @ [NL] \<and>
   normalizeWhitespace (normalizeWhitespace (''a '' @ [BSL] @ ''r'')) = ''a'' @ [NL] \<and>
   normalizeWhitespace (normalizeWhitespace (''a '' @ [BSL] @ ''r'')) \<noteq>
     normalizeWhitespace (''a '' @ [BSL] @ ''r'')"
  by code_simp

text \<open>
  C5 as amended.  White-space normalization is idempotent on every text that
  contains no literal escape sequence (no backslash followed by \<open>r\<close>, \<open>v\<close> or \<open>f\<close>).
\<close>

theorem normalization_idempotent_without_escapes:
  assumes "\<not> hasEscape s"
  shows "normalizeWhitespace (normalizeWhitespace s) = normalizeWhitespace s"
proof -
  let ?h = "trimHorizontalWhitespace s"
  let ?t = "collapseNewlines ?h"
  have v: "trimVerticalWhitespace x = collapseNewlines x"
    if "\<not> hasEscape x" "\<forall>c\<in>set x. c \<notin> {CR, VT, FF}" for x
    using that by (simp add: trimVerticalWhitespace_steps escapes_fixed controlRuns_fixed)
  have h1: "\<not> hasEscape ?h" using assms hasEscape_horizontal by blast
  have h2: "\<forall>c\<in>set ?h. c \<notin> {CR, VT, FF}" using horizontal_no_control by blast
  have n: "normalizeWhitespace s = ?t" unfolding normalizeWhitespace_def by (rule v[OF h1 h2])
  have t1: "\<not> hasEscape ?t" using h1 hasEscape_collapse by blast
  have t2: "\<forall>c\<in>set ?t. c \<notin> {CR, VT, FF}" using h2 collapse_subset[of ?h] by blast
  have "normalizeWhitespace ?t = trimVerticalWhitespace ?t"
    unfolding normalizeWhitespace_def horizontal_after_collapse ..
  also have "\<dots> = collapseNewlines ?t" by (rule v[OF t1 t2])
  also have "\<dots> = ?t" by (rule collapse_fixed) (rule collapse_no_triple)
  finally show ?thesis unfolding n .
qed

theorem normalization_idempotent_without_escapes_witness:
  "\<not> hasEscape (''  a   b '' @ [NL, NL, CR, NL, NL] @ '' c'') \<and>
   normalizeWhitespace (''  a   b '' @ [NL, NL, CR, NL, NL] @ '' c'') = ''a b'' @ [NL, NL] @ ''c'' \<and>
   normalizeWhitespace (normalizeWhitespace (''  a   b '' @ [NL, NL, CR, NL, NL] @ '' c'')) =
     ''a b'' @ [NL, NL] @ ''c''"
proof -
  let ?s = "''  a   b '' @ [NL, NL, CR, NL, NL] @ '' c''"
  have e: "\<not> hasEscape ?s" by code_simp
  have n: "normalizeWhitespace ?s = ''a b'' @ [NL, NL] @ ''c''" by code_simp
  from normalization_idempotent_without_escapes[OF e] have
    "normalizeWhitespace (normalizeWhitespace ?s) = normalizeWhitespace ?s" .
  then have "normalizeWhitespace (normalizeWhitespace ?s) = ''a b'' @ [NL, NL] @ ''c''"
    using n by (rule trans)
  with e n show ?thesis by (intro conjI)
qed

section \<open>Facts about stripping the markers\<close>

lemma stripStyle_render: "stripStyle s = render (\<lambda>m. []) (scan ansiRegex s)"
  by (simp add: stripStyle_def replaceAllString_render)

lemma stripStyle_Nil: "stripStyle [] = []"
  by (simp add: stripStyle_render render_def)

lemma stripStyle_char: "c \<noteq> ESC \<Longrightarrow> stripStyle (c # rest) = c # stripStyle rest"
proof -
  assume "c \<noteq> ESC"
  then have "ansiRegex (c # rest) = None" by (simp add: ansiRegex_def Let_def)
  then show ?thesis by (simp add: stripStyle_render scan_no_match render_Inr)
qed

lemma stripStyle_text: "ESC \<notin> set b \<Longrightarrow> stripStyle (b @ rest) = b @ stripStyle rest"
proof (induction b)
  case Nil
  then show ?case by simp
next
  case (Cons a b)
  then have "a \<noteq> ESC" "stripStyle (b @ rest) = b @ stripStyle rest" by auto
  with stripStyle_char[of a "b @ rest"] show ?case by simp
qed

lemma stripStyle_marker:
  assumes "ps \<noteq> []" "\<forall>c\<in>set ps. c \<in> set ''0123456789;''"
  shows "stripStyle (ESC # CHR ''['' # ps @ CHR ''m'' # rest) = stripStyle rest"
proof -
  let ?P = "\<lambda>c. c \<in> set ''0123456789;''"
  have "\<not> ?P (CHR ''m'')" by simp
  then have t: "takeWhile ?P (ps @ CHR ''m'' # rest) = ps" "dropWhile ?P (ps @ CHR ''m'' # rest) = CHR ''m'' # rest"
    using assms(2) by (simp_all add: takeWhile_tail dropWhile_append2 del: set_simps)
  have m: "ansiRegex (ESC # CHR ''['' # ps @ CHR ''m'' # rest) = Some [[ESC, CHR ''[''] @ ps @ ''m'']"
    unfolding ansiRegex_def Let_def using t by simp
  have "scan ansiRegex (ESC # CHR ''['' # ps @ CHR ''m'' # rest) =
      Inl ([ESC, CHR ''[''] @ ps @ ''m'') # scan ansiRegex rest"
    using scan_match[of ansiRegex ESC "CHR ''['' # ps @ CHR ''m'' # rest" "[ESC, CHR ''[''] @ ps @ ''m''" "[]"] m
    by simp
  then show ?thesis by (simp add: stripStyle_render render_Inl)
qed

lemma stripStyle_colors:
  "stripStyle (ColorReset @ rest) = stripStyle rest"
  "stripStyle (ColorGreen @ rest) = stripStyle rest"
  "stripStyle (ColorCyan @ rest) = stripStyle rest"
  "stripStyle (ColorMagenta @ rest) = stripStyle rest"
  "stripStyle (ColorYellow @ rest) = stripStyle rest"
  using stripStyle_marker[of "''0''" rest] stripStyle_marker[of "''32''" rest]
    stripStyle_marker[of "''36''" rest] stripStyle_marker[of "''35''" rest]
    stripStyle_marker[of "''33''" rest]
  by (simp_all add: ColorReset_def ColorGreen_def ColorCyan_def ColorMagenta_def ColorYellow_def)

lemma stripStyle_wrapped:
  assumes "ESC \<notin> set b"
  shows "stripStyle (ColorGreen @ b @ ColorReset @ rest) = b @ stripStyle rest"
    "stripStyle (ColorCyan @ b @ ColorReset @ rest) = b @ stripStyle rest"
    "stripStyle (ColorMagenta @ b @ ColorReset @ rest) = b @ stripStyle rest"
    "stripStyle (ColorYellow @ b @ ColorReset @ rest) = b @ stripStyle rest"
  by (simp_all only: stripStyle_colors stripStyle_text[OF assms])

lemma stripStyle_segments:
  assumes "\<forall>c. Inr c \<in> set segs \<longrightarrow> c \<noteq> ESC"
    and "\<forall>m. Inl m \<in> set segs \<longrightarrow> (\<forall>rest. stripStyle (gH m @ rest) = gP m @ stripStyle rest)"
  shows "stripStyle (render gH segs @ rest) = render gP segs @ stripStyle rest"
  using assms
proof (induction segs)
  case Nil
  then show ?case by (simp add: render_def)
next
  case (Cons seg segs)
  then have ih: "stripStyle (render gH segs @ rest) = render gP segs @ stripStyle rest" by simp
  show ?case
  proof (cases seg)
    case (Inl m)
    with Cons.prems(2) have "stripStyle (gH m @ render gH segs @ rest) =
        gP m @ stripStyle (render gH segs @ rest)" by simp
    with ih Inl show ?thesis by (simp add: render_Inl)
  next
    case (Inr c)
    with Cons.prems(1) have "c \<noteq> ESC" by simp
    with ih Inr show ?thesis by (simp add: render_Inr stripStyle_char)
  qed
qed

lemma digitChar_plain: "digitChar n \<noteq> ESC"
proof -
  have "digitChar n \<in> set ''0123456789''" unfolding digitChar_def by (rule nth_mem) simp
  then show ?thesis by (auto simp: ESC_def)
qed

lemma pad_plain: "ESC \<notin> set (pad2 n)" "ESC \<notin> set (pad4 n)"
  using digitChar_plain[symmetric] by (simp_all add: pad2_def pad4_def)

lemma monthAbbr_plain: "1 \<le> m \<Longrightarrow> m \<le> 12 \<Longrightarrow> ESC \<notin> set (monthAbbr m)"
proof -
  assume "1 \<le> m" "m \<le> 12"
  let ?names = "[''Jan'', ''Feb'', ''Mar'', ''Apr'', ''May'', ''Jun'',
                  ''Jul'', ''Aug'', ''Sep'', ''Oct'', ''Nov'', ''Dec'']"
  have "monthAbbr m \<in> set ?names" unfolding monthAbbr_def
    by (rule nth_mem) (use \<open>1 \<le> m\<close> \<open>m \<le> 12\<close> in simp)
  moreover have "\<forall>x\<in>set ?names. ESC \<notin> set x" by (simp add: ESC_def)
  ultimately show ?thesis by blast
qed

lemma parseDateTime_month: "parseDateTime v = Some (t, r) \<Longrightarrow> 1 \<le> month t \<and> month t \<le> 12"
  by (auto simp: parseDateTime_def split: if_splits option.splits prod.splits)

lemma parseTimestamp_month: "parseTimestamp v = Some t \<Longrightarrow> 1 \<le> month t \<and> month t \<le> 12"
proof -
  assume a: "parseTimestamp v = Some t"
  have z: "1 \<le> month t \<and> month t \<le> 12" if "parseLayoutZ v = Some t"
    using that parseDateTime_month[of v]
    by (auto simp: parseLayoutZ_def validDay_def split: if_splits option.splits prod.splits)
  have o: "1 \<le> month t \<and> month t \<le> 12" if "parseLayoutOffset v = Some t"
  proof -
    from that obtain t0 r where p: "parseDateTime v = Some (t0, r)"
      by (auto simp: parseLayoutOffset_def split: option.splits)
    from that p have "month t = month t0"
      by (auto simp: parseLayoutOffset_def validDay_def Let_def split: if_splits option.splits prod.splits)
    with parseDateTime_month[OF p] show ?thesis by simp
  qed
  from a z o show ?thesis by (auto simp: parseTimestamp_def split: option.splits)
qed

lemma formats_plain:
  "1 \<le> month t \<Longrightarrow> month t \<le> 12 \<Longrightarrow> ESC \<notin> set (formatDate t)"
  "ESC \<notin> set (formatKitchen t)" "ESC \<notin> set (formatClock t)" "ESC \<notin> set (zoneText t)"
proof -
  show "1 \<le> month t \<Longrightarrow> month t \<le> 12 \<Longrightarrow> ESC \<notin> set (formatDate t)"
    using pad_plain monthAbbr_plain by (simp add: formatDate_def ESC_def)
  show "ESC \<notin> set (formatKitchen t)" using pad_plain by (simp add: formatKitchen_def ESC_def)
  show "ESC \<notin> set (formatClock t)" using pad_plain by (simp add: formatClock_def ESC_def)
  have "ESC \<notin> set (formatZone t)" using pad_plain by (simp add: formatZone_def Let_def ESC_def)
  then show "ESC \<notin> set (zoneText t)" by (simp add: zoneText_def Let_def ESC_def)
qed

lemma stampText_strip:
  assumes "ESC \<notin> set m"
  shows "stripStyle (stampText n highlightDate m @ rest) = stampText n plainDate m @ stripStyle rest"
    and "stripStyle (stampText n highlightTime12 m @ rest) = stampText n plainTime12 m @ stripStyle rest"
    and "stripStyle (stampText n highlightTime24 m @ rest) = stampText n plainTime24 m @ stripStyle rest"
proof -
  let ?inner = "take (length m - Suc n) (drop n m)"
  show "stripStyle (stampText n highlightDate m @ rest) = stampText n plainDate m @ stripStyle rest"
  proof (cases "parseTimestamp ?inner")
    case None
    then show ?thesis by (simp add: stampText_def stripStyle_text[OF assms])
  next
    case (Some t)
    from parseTimestamp_month[OF Some] have "ESC \<notin> set (formatDate t)" by (simp add: formats_plain)
    from stripStyle_wrapped(3)[OF this, of rest] Some show ?thesis
      by (simp add: stampText_def highlightDate_def plainDate_def)
  qed
  have both: "stripStyle (ColorCyan @ a @ ColorReset @ '' '' @ ColorYellow @ z @ ColorReset @ rest) =
      a @ '' '' @ z @ stripStyle rest" if "ESC \<notin> set a" "ESC \<notin> set z" for a z
  proof -
    have "stripStyle (ColorCyan @ a @ ColorReset @ ('' '' @ ColorYellow @ z @ ColorReset @ rest)) =
        a @ stripStyle ('' '' @ ColorYellow @ z @ ColorReset @ rest)"
      by (rule stripStyle_wrapped(2)[OF that(1)])
    moreover have "stripStyle ('' '' @ ColorYellow @ z @ ColorReset @ rest) =
        '' '' @ stripStyle (ColorYellow @ z @ ColorReset @ rest)"
      by (rule stripStyle_text) (simp add: ESC_def)
    moreover have "stripStyle (ColorYellow @ z @ ColorReset @ rest) = z @ stripStyle rest"
      by (rule stripStyle_wrapped(4)[OF that(2)])
    ultimately show ?thesis by simp
  qed
  show "stripStyle (stampText n highlightTime12 m @ rest) = stampText n plainTime12 m @ stripStyle rest"
  proof (cases "parseTimestamp ?inner")
    case None
    then show ?thesis by (simp add: stampText_def stripStyle_text[OF assms])
  next
    case (Some t)
    from both[OF formats_plain(2) formats_plain(4), of t t] Some show ?thesis
      by (simp add: stampText_def highlightTime12_def plainTime12_def)
  qed
  show "stripStyle (stampText n highlightTime24 m @ rest) = stampText n plainTime24 m @ stripStyle rest"
  proof (cases "parseTimestamp ?inner")
    case None
    then show ?thesis by (simp add: stampText_def stripStyle_text[OF assms])
  next
    case (Some t)
    from both[OF formats_plain(3) formats_plain(4), of t t] Some show ?thesis
      by (simp add: stampText_def highlightTime24_def plainTime24_def)
  qed
qed

lemma codeText_strip:
  assumes "ESC \<notin> set m"
    and "\<forall>code a. d code = Some a \<longrightarrow>
           ESC \<notin> set (Name (target a)) \<and> ESC \<notin> set (Municipality (target a))"
  shows "stripStyle (codeText k highlightCity highlightAirport d m @ rest) =
         codeText k plainCity plainAirport d m @ stripStyle rest"
proof (cases "d (drop (length (optStar m) + k) m)")
  case None
  then show ?thesis by (simp add: codeText_def stripStyle_text[OF assms(1)])
next
  case (Some a)
  with assms(2) have n: "ESC \<notin> set (Name (target a))" and c: "ESC \<notin> set (Municipality (target a))"
    by blast+
  from stripStyle_wrapped(1)[OF n, of rest] stripStyle_wrapped(2)[OF c, of rest] Some
  show ?thesis
    by (simp add: codeText_def highlightCity_def highlightAirport_def plainCity_def plainAirport_def)
qed

lemma strip_pass:
  assumes "ESC \<notin> set s"
    and "\<And>t g. re t = Some g \<Longrightarrow> set (hd g) \<subseteq> set t"
    and "\<And>m rest. ESC \<notin> set m \<Longrightarrow> stripStyle (gH m @ rest) = gP m @ stripStyle rest"
  shows "stripStyle (render gH (scan re s)) = render gP (scan re s)"
proof -
  have "stripStyle (render gH (scan re s) @ []) = render gP (scan re s) @ stripStyle []"
  proof (rule stripStyle_segments, intro allI impI)
    fix c assume "Inr c \<in> set (scan re s)"
    then have "c \<in> set s" by (rule scan_chars)
    with assms(1) show "c \<noteq> ESC" by auto
  next
    show "\<forall>m. Inl m \<in> set (scan re s) \<longrightarrow>
        (\<forall>rest. stripStyle (gH m @ rest) = gP m @ stripStyle rest)"
    proof (intro allI impI)
      fix m rest assume "Inl m \<in> set (scan re s)"
      from scan_matches[OF this] obtain t gs where t: "re t = Some (m # gs)" "set t \<subseteq> set s" by blast
      from assms(2)[OF t(1)] t(2) assms(1) have "ESC \<notin> set m" by auto
      then show "stripStyle (gH m @ rest) = gP m @ stripStyle rest" by (rule assms(3))
    qed
  qed
  then show ?thesis by (simp add: stripStyle_Nil)
qed

lemma regex_chars:
  "iataRegex t = Some g \<Longrightarrow> set (hd g) \<subseteq> set t"
  "icaoRegex t = Some g \<Longrightarrow> set (hd g) \<subseteq> set t"
  "tokenRegex lit t = Some g \<Longrightarrow> set (hd g) \<subseteq> set t"
  using iataRegex_shape[of t g] icaoRegex_shape[of t g] tokenRegex_shape[of lit t g]
  by auto

section \<open>The two renderings\<close>

text \<open>
  C1, the claim as stated fails, in two ways.  A style marker that the input text
  itself contains is kept by the plain rendering and removed by stripping the
  highlighted one.  And the markers are inserted before the later steps run: with an
  airport whose name starts with a space, the plain rendering of \<open>#SPC\<close> loses the space
  to the horizontal white-space step, while in the highlighted rendering the opening
  marker stands before the space as a word of its own, so the space is kept and is still
  there once the markers are stripped.
\<close>

theorem stripped_highlight_differs_from_plain:
  "plainProcessContent Map.empty (''a'' @ ColorReset) = Inr (''a'' @ ColorReset) \<and>
   highlightProcessContent Map.empty (''a'' @ ColorReset) = Inr (''a'' @ ColorReset) \<and>
   stripStyle (''a'' @ ColorReset) = ''a'' \<and>
   stripStyle (''a'' @ ColorReset) \<noteq> ''a'' @ ColorReset \<and>
   plainProcessContent directoryS ''#SPC'' = Inr ''Spaced Field'' \<and>
   highlightProcessContent directoryS ''#SPC'' = Inr (ColorGreen @ '' Spaced Field'' @ ColorReset) \<and>
   stripStyle (ColorGreen @ '' Spaced Field'' @ ColorReset) = '' Spaced Field'' \<and>
   stripStyle (ColorGreen @ '' Spaced Field'' @ ColorReset) \<noteq> ''Spaced Field''"
  by code_simp

text \<open>
  C1 as amended.  The two modes differ only in decoration pass by pass: for a text
  without escape characters and a directory whose names and municipalities have none,
  each of the five token passes of the highlighted mode, run on that text, returns a
  text that, with the style markers stripped, is what the plain pass returns on the
  same text.  (Nothing is claimed for whole outputs: there the markers and the
  inserted texts meet the later passes and the white-space steps.)
\<close>

theorem highlighted_pass_strips_to_plain_pass:
  assumes "ESC \<notin> set s"
    and "\<forall>code a. d code = Some a \<longrightarrow>
           ESC \<notin> set (Name (target a)) \<and> ESC \<notin> set (Municipality (target a))"
  shows "(\<exists>h p. highlightIataPass d s = Inr h \<and> plainIataPass d s = Inr p \<and> stripStyle h = p) \<and>
         (\<exists>h p. highlightIcaoPass d s = Inr h \<and> plainIcaoPass d s = Inr p \<and> stripStyle h = p) \<and>
         (\<exists>h p. highlightDatePass s = Inr h \<and> plainDatePass s = Inr p \<and> stripStyle h = p) \<and>
         (\<exists>h p. highlightTime12Pass s = Inr h \<and> plainTime12Pass s = Inr p \<and> stripStyle h = p) \<and>
         (\<exists>h p. highlightTime24Pass s = Inr h \<and> plainTime24Pass s = Inr p \<and> stripStyle h = p)"
proof (intro conjI)
  have "stripStyle (render (codeText 1 highlightCity highlightAirport d) (scan iataRegex s)) =
      render (codeText 1 plainCity plainAirport d) (scan iataRegex s)"
    by (rule strip_pass[OF assms(1) regex_chars(1)]) (simp_all add: codeText_strip[OF _ assms(2)])
  then show "\<exists>h p. highlightIataPass d s = Inr h \<and> plainIataPass d s = Inr p \<and> stripStyle h = p"
    unfolding highlightIataPass_render plainIataPass_render by blast
  have "stripStyle (render (codeText 2 highlightCity highlightAirport d) (scan icaoRegex s)) =
      render (codeText 2 plainCity plainAirport d) (scan icaoRegex s)"
    by (rule strip_pass[OF assms(1) regex_chars(2)]) (simp_all add: codeText_strip[OF _ assms(2)])
  then show "\<exists>h p. highlightIcaoPass d s = Inr h \<and> plainIcaoPass d s = Inr p \<and> stripStyle h = p"
    unfolding highlightIcaoPass_render plainIcaoPass_render by blast
  have "stripStyle (render (stampText 2 highlightDate) (scan dateRegex s)) =
      render (stampText 2 plainDate) (scan dateRegex s)"
    unfolding dateRegex_def
    by (rule strip_pass[OF assms(1) regex_chars(3)]) (simp_all add: stampText_strip)
  then show "\<exists>h p. highlightDatePass s = Inr h \<and> plainDatePass s = Inr p \<and> stripStyle h = p"
    unfolding highlightDatePass_render plainDatePass_render by blast
  have "stripStyle (render (stampText 4 highlightTime12) (scan time12Regex s)) =
      render (stampText 4 plainTime12) (scan time12Regex s)"
    unfolding time12Regex_def
    by (rule strip_pass[OF assms(1) regex_chars(3)]) (simp_all add: stampText_strip)
  then show "\<exists>h p. highlightTime12Pass s = Inr h \<and> plainTime12Pass s = Inr p \<and> stripStyle h = p"
    unfolding highlightTime12Pass_render plainTime12Pass_render by blast
  have "stripStyle (render (stampText 4 highlightTime24) (scan time24Regex s)) =
      render (stampText 4 plainTime24) (scan time24Regex s)"
    unfolding time24Regex_def
    by (rule strip_pass[OF assms(1) regex_chars(3)]) (simp_all add: stampText_strip)
  then show "\<exists>h p. highlightTime24Pass s = Inr h \<and> plainTime24Pass s = Inr p \<and> stripStyle h = p"
    unfolding highlightTime24Pass_render plainTime24Pass_render by blast
qed

theorem highlighted_pass_strips_to_plain_pass_witness:
  "ESC \<notin> set ''to *#ABC at T12(2025-03-15T14:30-04:00)'' \<and>
   highlightIataPass directoryXY ''to *#ABC at T12(2025-03-15T14:30-04:00)'' =
     Inr (''to '' @ ColorCyan @ ''Xcity'' @ ColorReset @ '' at T12(2025-03-15T14:30-04:00)'') \<and>
   plainIataPass directoryXY ''to *#ABC at T12(2025-03-15T14:30-04:00)'' =
     Inr ''to Xcity at T12(2025-03-15T14:30-04:00)'' \<and>
   stripStyle (''to '' @ ColorCyan @ ''Xcity'' @ ColorReset @ '' at T12(2025-03-15T14:30-04:00)'') =
     ''to Xcity at T12(2025-03-15T14:30-04:00)'' \<and>
   highlightTime12Pass ''to *#ABC at T12(2025-03-15T14:30-04:00)'' =
     Inr (''to *#ABC at '' @ ColorCyan @ ''02:30PM'' @ ColorReset @ '' '' @
          ColorYellow @ ''(-04:00)'' @ ColorReset) \<and>
   plainTime12Pass ''to *#ABC at T12(2025-03-15T14:30-04:00)'' = Inr ''to *#ABC at 02:30PM (-04:00)'' \<and>
   stripStyle (''to *#ABC at '' @ ColorCyan @ ''02:30PM'' @ ColorReset @ '' '' @
               ColorYellow @ ''(-04:00)'' @ ColorReset) = ''to *#ABC at 02:30PM (-04:00)''"
proof -
  let ?s = "''to *#ABC at T12(2025-03-15T14:30-04:00)''"
  have e: "ESC \<notin> set ?s" by (simp add: ESC_def)
  have d: "\<forall>code a. directoryXY code = Some a \<longrightarrow>
           ESC \<notin> set (Name (target a)) \<and> ESC \<notin> set (Municipality (target a))"
    by (auto simp: directoryXY_def airportX_def airportY_def ESC_def split: if_splits)
  have v: "highlightIataPass directoryXY ?s =
     Inr (''to '' @ ColorCyan @ ''Xcity'' @ ColorReset @ '' at T12(2025-03-15T14:30-04:00)'')"
    "plainIataPass directoryXY ?s = Inr ''to Xcity at T12(2025-03-15T14:30-04:00)''"
    "highlightTime12Pass ?s =
     Inr (''to *#ABC at '' @ ColorCyan @ ''02:30PM'' @ ColorReset @ '' '' @
          ColorYellow @ ''(-04:00)'' @ ColorReset)"
    "plainTime12Pass ?s = Inr ''to *#ABC at 02:30PM (-04:00)''"
    by code_simp+
  note th = highlighted_pass_strips_to_plain_pass[OF e d]
  from th v(1,2) have 1: "stripStyle (''to '' @ ColorCyan @ ''Xcity'' @ ColorReset @ '' at T12(2025-03-15T14:30-04:00)'') =
     ''to Xcity at T12(2025-03-15T14:30-04:00)''" by auto
  from th v(3,4) have 2: "stripStyle (''to *#ABC at '' @ ColorCyan @ ''02:30PM'' @ ColorReset @ '' '' @
               ColorYellow @ ''(-04:00)'' @ ColorReset) = ''to *#ABC at 02:30PM (-04:00)''" by auto
  show ?thesis by (intro conjI) (rule e v 1 2)+
qed

end
